theory Spec2Isabelle
  imports Main
begin

section \<open>Data model\<close>

text \<open>
  The program is single-program-multiple-data: every rank of a communicator runs the same
  function on its own arguments and meets the other ranks in collective calls. A function
  of the source is embedded as one HOL function over the list of the per-rank arguments
  (position \<open>r\<close> of the list is rank \<open>r\<close>, the length of the list is \<open>comm.size\<close>); it
  returns the list of the per-rank outcomes. \<open>comm.allgather(x)\<close> is the list of the
  per-rank values itself, \<open>comm.bcast(x)\<close> (whose root defaults to rank 0) is the value of
  position 0, \<open>comm.allreduce(x)\<close> is the sum over the list.
\<close>

datatype error =
    ValueError string
  | TypeError string
  | AttributeError string
  | IndexError string
  | StopIteration
  | MPIError string

text \<open>
  What one rank observes: it returns a value, it raises, or it blocks for ever in a
  collective call that another rank never reaches.
\<close>

datatype 'a outcome = Returned 'a | Raised error | Hung

text \<open>
  A numpy element type descriptor: a flat scalar type (named by its type string), the
  boxed object type \<open>'O'\<close>, or a structured type (\<open>dtype.char == 'V'\<close>) with its ordered
  fields. Sub-array fields are not modelled.
\<close>

datatype dtype = Scalar string | Object | Struct "(string \<times> dtype) list"

text \<open>
  A numpy array of at least one dimension: its element type, its trailing shape
  \<open>shape[1:]\<close> and its rows along the first axis, so that \<open>len(a)\<close> and \<open>a.shape[0]\<close> are
  the number of rows.
\<close>

record 'a ndarray =
  nd_dtype :: dtype
  nd_trail :: "nat list"
  nd_rows :: "'a list"

definition nd_shape :: "'a ndarray \<Rightarrow> nat list" where
  "nd_shape a = length (nd_rows a) # nd_trail a"

text \<open>The attributes \<open>local\<close>, \<open>dtype\<close>, \<open>cshape\<close> and \<open>coffset\<close> of a \<open>DistributedArray\<close>
  object on one rank.\<close>

record 'a darray =
  da_local :: "'a ndarray"
  da_dtype :: dtype
  da_cshape :: "nat list"
  da_coffset :: nat

section \<open>DistributedArray construction\<close>

text \<open>
  \<open>_find_dtype\<close>: the set of the gathered descriptors that are not \<open>None\<close>; more than one
  raises, and \<open>next(iter(dtypes))\<close> raises \<open>StopIteration\<close> on the empty set. The result is
  computed from the gathered list alone, so it is the same on every rank.
\<close>

definition find_dtype :: "dtype option list \<Rightarrow> error + dtype" where
  "find_dtype dtypes =
     (let ds = remdups (List.map_filter (\<lambda>d. d) dtypes) in
      if length ds > 1
      then Inl (TypeError ''Type of local array is inconsistent between ranks'')
      else (case ds of [] \<Rightarrow> Inl StopIteration | d # _ \<Rightarrow> Inr d))"

text \<open>
  \<open>_find_cshape\<close> on rank \<open>rank\<close>: the set of the gathered trailing shapes must have one
  element; the global length is the all-reduced sum of the local lengths.
\<close>

definition find_cshape :: "nat list list \<Rightarrow> nat \<Rightarrow> error + nat list" where
  "find_cshape shapes rank =
     (if length (remdups (map tl shapes)) > 1
      then Inl (TypeError ''Shape of local array is inconsistent between ranks'')
      else Inr (sum_list (map hd shapes) # tl (shapes ! rank)))"

text \<open>
  \<open>DistributedArray.__init__\<close>, on all ranks at once. A rank with \<open>len(local) == 0\<close>
  contributes \<open>None\<close> to \<open>_find_dtype\<close>. Both checks read gathered values only, so every
  rank raises the same error or every rank returns.
\<close>

definition DistributedArray :: "'a ndarray list \<Rightarrow> 'a darray outcome list" where
  "DistributedArray locals =
     (let nranks = length locals;
          dtypes = map (\<lambda>a. if length (nd_rows a) \<noteq> 0 then Some (nd_dtype a) else None) locals;
          shapes = map nd_shape locals
      in case find_dtype dtypes of
           Inl e \<Rightarrow> replicate nranks (Raised e)
         | Inr dt \<Rightarrow>
             (case find_cshape shapes 0 of
                Inl e \<Rightarrow> replicate nranks (Raised e)
              | Inr _ \<Rightarrow>
                  map (\<lambda>rank. Returned
                        \<lparr> da_local = locals ! rank,
                          da_dtype = dt,
                          da_cshape = projr (find_cshape shapes rank),
                          da_coffset = sum_list (take rank (map hd shapes)) \<rparr>)
                      [0..<nranks]))"

section \<open>DistributedArray.cempty\<close>

text \<open>The local length of rank \<open>rank\<close>, in Python's integers with floor division.\<close>

definition cempty_llen :: "nat \<Rightarrow> nat \<Rightarrow> nat \<Rightarrow> int" where
  "cempty_llen L rank nranks =
     int L * (int rank + 1) div int nranks - int L * int rank div int nranks"

text \<open>
  \<open>cempty\<close> on all ranks at once: \<open>cshape\<close> is the requested global shape (the same on
  every rank, a tuple of dimensions), \<open>dtypes\<close> the per-rank \<open>dtype\<close> arguments.
  \<open>numpy.empty\<close> leaves the content of the new array unspecified; the model fills it
  with the parameter \<open>uninit\<close>.
\<close>

definition cempty :: "'a \<Rightarrow> nat list \<Rightarrow> dtype option list \<Rightarrow> 'a darray outcome list" where
  "cempty uninit cshape dtypes =
     (let nranks = length dtypes in
      case find_dtype dtypes of
        Inl e \<Rightarrow> replicate nranks (Raised e)
      | Inr dt \<Rightarrow>
          (case cshape of
             [] \<Rightarrow> replicate nranks (Raised (IndexError ''tuple index out of range''))
           | L # trail \<Rightarrow>
               (let llens = map (\<lambda>rank. nat (cempty_llen L rank nranks)) [0..<nranks];
                    shapes = map (\<lambda>llen. llen # trail) llens
                in case find_cshape shapes 0 of
                     Inl e \<Rightarrow> replicate nranks (Raised e)
                   | Inr cshape1 \<Rightarrow>
                       if cshape \<noteq> cshape1
                       then replicate nranks (Raised (ValueError ''input cshape is inconsistent''))
                       else DistributedArray
                              (map (\<lambda>llen. \<lparr> nd_dtype = dt, nd_trail = trail,
                                              nd_rows = replicate llen uninit \<rparr>) llens))))"

text \<open>The number of rows a rank holds: \<open>len(self.local)\<close>.\<close>

definition local_length :: "'a darray \<Rightarrow> nat" where
  "local_length d = length (nd_rows (da_local d))"

section \<open>LinearTopology\<close>

text \<open>
  A boundary value as \<open>heads()\<close> and \<open>tails()\<close> report it: the sentinel object \<open>EmptyRank\<close>
  for a rank with no element, or an element. The identity test \<open>is not EmptyRank\<close> of the
  source is the test against the constructor.
\<close>

datatype 'a boundary = EmptyRank | Item 'a

definition heads :: "'a ndarray list \<Rightarrow> 'a boundary list" where
  "heads locals =
     map (\<lambda>a. if length (nd_rows a) > 0 then Item (hd (nd_rows a)) else EmptyRank) locals"

definition tails :: "'a ndarray list \<Rightarrow> 'a boundary list" where
  "tails locals =
     map (\<lambda>a. if length (nd_rows a) > 0 then Item (last (nd_rows a)) else EmptyRank) locals"

text \<open>The loops of \<open>prev()\<close> and \<open>next()\<close>: the first entry that is not \<open>EmptyRank\<close>.\<close>

fun first_item :: "'a boundary list \<Rightarrow> 'a boundary" where
  "first_item [] = EmptyRank"
| "first_item (EmptyRank # bs) = first_item bs"
| "first_item (Item x # bs) = Item x"

definition topology_prev :: "'a ndarray list \<Rightarrow> nat \<Rightarrow> 'a boundary" where
  "topology_prev locals rank = first_item (rev (take rank (tails locals)))"

definition topology_next :: "'a ndarray list \<Rightarrow> nat \<Rightarrow> 'a boundary" where
  "topology_next locals rank = first_item (drop (rank + 1) (heads locals))"

section \<open>DistributedArray.unique_labels\<close>

text \<open>
  \<open>numpy.unique(a, return_inverse=True)\<close> on a one-dimensional array: the sorted distinct
  values, and for every element the index of its value among them.
\<close>

fun index_of :: "'a list \<Rightarrow> 'a \<Rightarrow> nat" where
  "index_of [] x = 0"
| "index_of (y # ys) x = (if x = y then 0 else Suc (index_of ys x))"

definition np_unique :: "'a::linorder list \<Rightarrow> 'a list \<times> nat list" where
  "np_unique xs = (let junk = sort (remdups xs) in (junk, map (index_of junk) xs))"

text \<open>
  The element type of the inverse that \<open>numpy.unique\<close> returns. The source works around
  numpy up to 1.13.3, which returns booleans for an empty input; \<open>legacy\<close> says whether
  the numpy at hand is such a version.
\<close>

definition np_unique_inverse_dtype :: "bool \<Rightarrow> 'a list \<Rightarrow> dtype" where
  "np_unique_inverse_dtype legacy xs =
     (if legacy \<and> xs = [] then Scalar ''bool'' else Scalar ''int64'')"

text \<open>The adjusted number of distinct groups of rank \<open>rank\<close>.\<close>

definition Nunique :: "'a::linorder ndarray list \<Rightarrow> nat \<Rightarrow> int" where
  "Nunique locals rank =
     (let xs = nd_rows (locals ! rank); junk = fst (np_unique xs) in
      if length xs = 0 then 0
      else if topology_next locals rank = Item (last xs) then int (length junk) - 1
      else int (length junk))"

text \<open>
  The label array of rank \<open>rank\<close> before the final construction: the inverse, cast to
  \<open>int64\<close> when it is empty, shifted by the sum of the adjusted counts of the lower ranks.
\<close>

definition unique_labels_local :: "bool \<Rightarrow> 'a::linorder ndarray list \<Rightarrow> nat \<Rightarrow> int ndarray" where
  "unique_labels_local legacy locals rank =
     (let xs = nd_rows (locals ! rank);
          label = map int (snd (np_unique xs));
          label_dtype = (if length label = 0 then Scalar ''int64''
                         else np_unique_inverse_dtype legacy xs);
          shift = sum_list (take rank (map (Nunique locals) [0..<length locals]))
      in \<lparr> nd_dtype = label_dtype, nd_trail = [], nd_rows = map (\<lambda>l. l + shift) label \<rparr>)"

definition unique_labels :: "bool \<Rightarrow> 'a::linorder darray list \<Rightarrow> int darray outcome list" where
  "unique_labels legacy selfs =
     (let locals = map da_local selfs in
      DistributedArray (map (unique_labels_local legacy locals) [0..<length selfs]))"

text \<open>
  The global array of a distributed array: the local rows of all ranks, in rank order and
  then local order.
\<close>

definition gathered :: "'a darray list \<Rightarrow> 'a list" where
  "gathered ds = concat (map (\<lambda>d. nd_rows (da_local d)) ds)"

section \<open>DistributedArray.bincount\<close>

text \<open>
  \<open>numpy.bincount(x)\<close> without weights, on integers: negative entries raise; the result
  counts the occurrences of \<open>0 .. max(x)\<close> and is empty for an empty input.
\<close>

definition np_bincount :: "int list \<Rightarrow> error + int list" where
  "np_bincount xs =
     (if list_ex (\<lambda>x. x < 0) xs
      then Inl (ValueError ''bincount: first argument must be non-negative'')
      else (case xs of
              [] \<Rightarrow> Inr []
            | x # rest \<Rightarrow>
                Inr (map (\<lambda>v. int (count_list xs (int v))) [0..<nat (fold max rest x) + 1])))"

text \<open>The value that bin 0 of rank \<open>rank\<close> stands for.\<close>

definition bincount_offset :: "int ndarray list \<Rightarrow> nat \<Rightarrow> int" where
  "bincount_offset locals rank =
     (case topology_prev locals rank of
        EmptyRank \<Rightarrow> 0
      | Item p \<Rightarrow>
          (let xs = nd_rows (locals ! rank) in
           if length xs > 0 \<and> p \<noteq> hd xs then p + 1 else p))"

definition counts_array :: "int list \<Rightarrow> int ndarray" where
  "counts_array N = \<lparr> nd_dtype = Scalar ''int64'', nd_trail = [], nd_rows = N \<rparr>"

text \<open>\<open>n += b\<close> for each gathered boundary bin \<open>b\<close> in turn; the sentinel cannot be added.\<close>

fun add_items :: "int \<Rightarrow> int boundary list \<Rightarrow> error + int" where
  "add_items n [] = Inr n"
| "add_items n (EmptyRank # bs) = Inl (TypeError ''unsupported operand type(s) for +='')"
| "add_items n (Item v # bs) = add_items (n + v) bs"

text \<open>
  The merge of the boundary bins on rank \<open>rank\<close>: \<open>xs\<close> is the local data, \<open>N\<close> the local
  histogram, \<open>hs\<close> and \<open>ts\<close> the gathered heads and tails of the data, \<open>hsN\<close> and \<open>tsN\<close> those
  of the histograms as they were before any merge.
\<close>

definition bincount_merge ::
  "bool \<Rightarrow> int boundary list \<Rightarrow> int boundary list \<Rightarrow> int boundary list \<Rightarrow> int boundary list
     \<Rightarrow> nat \<Rightarrow> int list \<Rightarrow> int list \<Rightarrow> error + int list" where
  "bincount_merge shared_edges hs ts hsN tsN rank xs N =
     (if length N > 0 then
        (case xs of
           [] \<Rightarrow> Inl (IndexError ''index 0 is out of bounds'')
         | x0 # _ \<Rightarrow>
             (let lower = filter (\<lambda>i. ts ! i = Item x0) (rev [0..<rank]);
                  upper = filter (\<lambda>i. hs ! i = Item (last xs)) [rank + 1..<length hs]
              in case add_items (N ! 0) (map (\<lambda>i. tsN ! i) lower) of
                   Inl e \<Rightarrow> Inl e
                 | Inr n0 \<Rightarrow>
                     (let N1 = N[0 := n0] in
                      case add_items (N1 ! (length N1 - 1)) (map (\<lambda>i. hsN ! i) upper) of
                        Inl e \<Rightarrow> Inl e
                      | Inr nl \<Rightarrow>
                          (let N2 = N1[length N1 - 1 := nl] in
                           Inr (if \<not> shared_edges \<and> lower \<noteq> [] then tl N2 else N2)))))
      else Inr N)"

text \<open>
  What the ranks observe when each of them either raised locally (\<open>Inl\<close>) or goes on to
  the next collective call: if some rank raised, the others wait for it for ever.
\<close>

definition raised_or_hung :: "(error + 'a) list \<Rightarrow> 'b outcome list" where
  "raised_or_hung rs = map (\<lambda>r. case r of Inl e \<Rightarrow> Raised e | Inr _ \<Rightarrow> Hung) rs"

text \<open>The outcome of a construction that did not return, at another result type.\<close>

definition not_returned :: "'a outcome \<Rightarrow> 'b outcome" where
  "not_returned out = (case out of Raised e \<Rightarrow> Raised e | _ \<Rightarrow> Hung)"

definition is_Returned :: "'a outcome \<Rightarrow> bool" where
  "is_Returned out = (case out of Returned _ \<Rightarrow> True | _ \<Rightarrow> False)"

text \<open>
  \<open>bincount(weights=None, local, shared_edges)\<close> on all ranks at once. With \<open>local\<close> set
  the raw local histogram is returned (\<open>Inl\<close>), else a new distributed array (\<open>Inr\<close>).
\<close>

definition bincount ::
  "bool \<Rightarrow> bool \<Rightarrow> int darray list \<Rightarrow> (int ndarray + int darray) outcome list" where
  "bincount local_only shared_edges selfs =
     (let locals = map da_local selfs;
          nranks = length selfs;
          Ns = map (\<lambda>rank. np_bincount (map (\<lambda>x. x - bincount_offset locals rank)
                                            (nd_rows (locals ! rank)))) [0..<nranks]
      in if local_only
         then map (\<lambda>N. case N of Inl e \<Rightarrow> Raised e
                               | Inr c \<Rightarrow> Returned (Inl (counts_array c))) Ns
         else if list_ex isl Ns then raised_or_hung Ns
         else
           (let hs = heads locals;
                ts = tails locals;
                Narrs = map (\<lambda>N. counts_array (projr N)) Ns;
                distN = DistributedArray Narrs
            in if \<not> list_all is_Returned distN then map not_returned distN
               else
                 (let hsN = heads Narrs;
                      tsN = tails Narrs;
                      merged = map (\<lambda>rank. bincount_merge shared_edges hs ts hsN tsN rank
                                              (nd_rows (locals ! rank)) (nd_rows (Narrs ! rank)))
                                   [0..<nranks]
                  in if list_ex isl merged then raised_or_hung merged
                     else map (\<lambda>out. case out of Returned d \<Rightarrow> Returned (Inr d)
                                              | Raised e \<Rightarrow> Raised e | Hung \<Rightarrow> Hung)
                              (DistributedArray (map (\<lambda>N. counts_array (projr N)) merged)))))"

text \<open>
  The bins of a local histogram with the values they stand for: bin \<open>i\<close> of a rank whose
  histogram starts at \<open>offset\<close> counts the value \<open>offset + i\<close>.
\<close>

definition labelled_bins :: "int \<Rightarrow> int list \<Rightarrow> (int \<times> int) list" where
  "labelled_bins offset N = zip (map (\<lambda>i. offset + int i) [0..<length N]) N"

section \<open>FrontPadArray\<close>

text \<open>
  The three masked assignments on one entry \<open>t\<close> of \<open>torecv\<close>, in the order of the source:
  negative entries become 0, entries above \<open>front\<close> become 0, entries above the peer's
  length \<open>Ni\<close> become \<open>Ni\<close>.
\<close>

definition clamp_torecv :: "int \<Rightarrow> int \<Rightarrow> int \<Rightarrow> int" where
  "clamp_torecv front Ni t =
     (let t1 = (if t < 0 then 0 else t);
          t2 = (if t1 > front then 0 else t1);
          t3 = (if t2 > Ni then Ni else t2)
      in t3)"

text \<open>
  \<open>torecv\<close> on rank \<open>rank\<close>: \<open>N\<close> are the gathered lengths, \<open>offsets\<close> is
  \<open>cumsum([0] + N)\<close>, so \<open>offsets[:-1] + N\<close> has the entry \<open>offsets[i] + N[i]\<close> for peer \<open>i\<close>.
\<close>

definition FrontPad_torecv :: "int list \<Rightarrow> int \<Rightarrow> nat \<Rightarrow> int list" where
  "FrontPad_torecv N front rank =
     (let offsets = map (\<lambda>i. sum_list (take i N)) [0..<length N + 1];
          mystart = offsets ! rank - front
      in map (\<lambda>i. clamp_torecv front (N ! i) ((offsets ! i + N ! i) - mystart)) [0..<length N])"

text \<open>\<open>array[-items:]\<close> for \<open>items > 0\<close>, and \<open>array[0:0]\<close> otherwise.\<close>

definition FrontPad_sendbuf :: "'a list \<Rightarrow> int \<Rightarrow> 'a list" where
  "FrontPad_sendbuf array items =
     (if items > 0
      then (if nat items \<ge> length array then array else drop (length array - nat items) array)
      else [])"

text \<open>
  \<open>FrontPadArray\<close> on all ranks at once; each rank passes its array (its rows) and its
  own \<open>front\<close>. The feasibility flag is all-reduced with a logical or, so every rank
  raises or none does. \<open>tosend\<close> of rank \<open>i\<close> holds at \<open>j\<close> what rank \<open>j\<close> wants to receive
  from \<open>i\<close>, and rank \<open>j\<close> receives from every rank \<open>i\<close> the buffer that \<open>i\<close> sends to \<open>j\<close>.
\<close>

definition FrontPadArray :: "('a list \<times> int) list \<Rightarrow> 'a list outcome list" where
  "FrontPadArray args =
     (let nranks = length args;
          arrays = map fst args;
          N = map (\<lambda>a. int (length a)) arrays;
          torecv = map (\<lambda>rank. FrontPad_torecv N (snd (args ! rank)) rank) [0..<nranks];
          infeasible = list_ex (\<lambda>rank. sum_list (torecv ! rank) \<noteq> snd (args ! rank)) [0..<nranks]
      in if infeasible
         then replicate nranks
                (Raised (ValueError ''cannot work out a plan to padd items. Some front values are too large.''))
         else map (\<lambda>rank.
                     Returned (concat (map (\<lambda>i. FrontPad_sendbuf (arrays ! i) (torecv ! rank ! i))
                                           [0..<nranks])
                               @ arrays ! rank))
                  [0..<nranks])"

text \<open>
  The contract of \<open>FrontPadArray\<close> in the words of its specification. \<open>spec_offset\<close> is the
  global index of the first element of a rank; a request is feasible when no rank asks for
  a negative number of elements or for more elements than precede it; \<open>spec_padded\<close> is
  the array a rank is to get: the \<open>front\<close> elements of the global array that end right
  before its offset, followed by its own local elements.
\<close>

definition spec_offset :: "('a list \<times> int) list \<Rightarrow> nat \<Rightarrow> nat" where
  "spec_offset args rank = length (concat (take rank (map fst args)))"

definition spec_feasible :: "('a list \<times> int) list \<Rightarrow> bool" where
  "spec_feasible args =
     list_all (\<lambda>rank. 0 \<le> snd (args ! rank) \<and> snd (args ! rank) \<le> int (spec_offset args rank))
              [0..<length args]"

definition spec_padded :: "('a list \<times> int) list \<Rightarrow> nat \<Rightarrow> 'a list" where
  "spec_padded args rank =
     take (nat (snd (args ! rank)))
          (drop (spec_offset args rank - nat (snd (args ! rank))) (concat (map fst args)))
     @ fst (args ! rank)"

section \<open>Element values of gathered and scattered arrays\<close>

text \<open>
  The content of a row: a scalar (its payload as a number), a record of a structured
  type with its fields in order, or a sub-array along a trailing dimension.
\<close>

datatype val = Num int | Rec "(string \<times> val) list" | Sub "val list"

text \<open>\<open>row[name]\<close>: the field of a record, taken through the trailing dimensions.\<close>

fun getfield :: "string \<Rightarrow> val \<Rightarrow> val" where
  "getfield name (Rec flds) = (case map_of flds name of Some v \<Rightarrow> v | None \<Rightarrow> Num 0)"
| "getfield name (Sub vs) = Sub (map (getfield name) vs)"
| "getfield name (Num i) = Num i"

text \<open>\<open>row[name] = v\<close>, through the trailing dimensions.\<close>

function (sequential) setfield :: "string \<Rightarrow> val \<Rightarrow> val \<Rightarrow> val" where
  "setfield name (Rec flds) v = Rec (map (\<lambda>(m, w). if m = name then (m, v) else (m, w)) flds)"
| "setfield name (Sub rs) (Sub vs) = Sub (map (\<lambda>(r, v). setfield name r v) (zip rs vs))"
| "setfield name r v = r"
  by pat_completeness auto
termination
proof (relation "measure (\<lambda>(name, r, v). size r)")
  show "wf (measure (\<lambda>(name, r, v). size r))" by simp
next
  fix name :: string and rs vs :: "val list" and x :: "val \<times> val" and r v :: val
  assume "x \<in> set (zip rs vs)" and "(r, v) = x"
  then have "r \<in> set rs" by (auto dest: set_zip_leftD)
  then have "size r \<le> size_list size rs" by (simp add: size_list_estimation')
  then show "((name, r, v), (name, Sub rs, Sub vs)) \<in> measure (\<lambda>(name, r, v). size r)"
    by simp
qed

text \<open>
  The rows of \<open>numpy.empty\<close>: memory of the right layout with unspecified content, which
  the model fills with zeros.
\<close>

fun blank_elem :: "dtype \<Rightarrow> val" where
  "blank_elem (Struct flds) = Rec (map (\<lambda>(n, d). (n, blank_elem d)) flds)"
| "blank_elem dt = Num 0"

fun blank_row :: "dtype \<Rightarrow> nat list \<Rightarrow> val" where
  "blank_row dt [] = blank_elem dt"
| "blank_row dt (k # ks) = Sub (replicate k (blank_row dt ks))"

definition np_empty :: "nat \<Rightarrow> nat list \<Rightarrow> dtype \<Rightarrow> val ndarray" where
  "np_empty n trail dt = \<lparr> nd_dtype = dt, nd_trail = trail, nd_rows = replicate n (blank_row dt trail) \<rparr>"

text \<open>\<open>dtype.names\<close> of a structured type and \<open>dtype[name]\<close>.\<close>

fun is_Struct :: "dtype \<Rightarrow> bool" where
  "is_Struct (Struct flds) = True"
| "is_Struct dt = False"

fun field_names :: "dtype \<Rightarrow> string list" where
  "field_names (Struct flds) = map fst flds"
| "field_names dt = []"

fun field_dtype :: "dtype \<Rightarrow> string \<Rightarrow> dtype" where
  "field_dtype (Struct flds) name = (case map_of flds name of Some d \<Rightarrow> d | None \<Rightarrow> Scalar [])"
| "field_dtype dt name = Scalar []"

text \<open>\<open>data[name]\<close>: the column of a field, an array of the same shape.\<close>

definition column :: "string \<Rightarrow> val ndarray \<Rightarrow> val ndarray" where
  "column name data =
     \<lparr> nd_dtype = field_dtype (nd_dtype data) name, nd_trail = nd_trail data,
       nd_rows = map (getfield name) (nd_rows data) \<rparr>"

text \<open>\<open>recvbuffer[name] = d\<close>, row by row.\<close>

definition assign_column :: "string \<Rightarrow> val ndarray \<Rightarrow> val ndarray \<Rightarrow> val ndarray" where
  "assign_column name recvbuffer d =
     recvbuffer \<lparr> nd_rows := map (\<lambda>(r, v). setfield name r v) (zip (nd_rows recvbuffer) (nd_rows d)) \<rparr>"

text \<open>
  Well-formed content: the fields of a numpy structured type have distinct names, and the
  rows of an array have the layout its element type and trailing shape say.
\<close>

fun wf_dtype :: "dtype \<Rightarrow> bool" where
  "wf_dtype (Struct flds) = (distinct (map fst flds) \<and> list_all (\<lambda>(n, d). wf_dtype d) flds)"
| "wf_dtype dt = True"

fun no_object :: "dtype \<Rightarrow> bool" where
  "no_object (Struct flds) = list_all (\<lambda>(n, d). no_object d) flds"
| "no_object Object = False"
| "no_object (Scalar k) = True"

fun conforms :: "dtype \<Rightarrow> val \<Rightarrow> bool" where
  "conforms (Struct flds) (Rec vs) =
     (map fst vs = map fst flds \<and> list_all (\<lambda>(n, d). conforms d (getfield n (Rec vs))) flds)"
| "conforms (Struct flds) v = False"
| "conforms dt (Num i) = True"
| "conforms dt v = False"

fun shaped :: "dtype \<Rightarrow> nat list \<Rightarrow> val \<Rightarrow> bool" where
  "shaped dt [] v = conforms dt v"
| "shaped dt (k # ks) (Sub vs) = (length vs = k \<and> list_all (shaped dt ks) vs)"
| "shaped dt (k # ks) v = False"

definition wf_array :: "val ndarray \<Rightarrow> bool" where
  "wf_array a = (wf_dtype (nd_dtype a) \<and> list_all (shaped (nd_dtype a) (nd_trail a)) (nd_rows a))"

section \<open>GatherArray\<close>

text \<open>The \<open>root\<close> argument: a rank number, or \<open>Ellipsis\<close> for a gather to all ranks.\<close>

datatype root = Rank nat | Ellipsis

text \<open>\<open>root is Ellipsis or comm.rank == root\<close>.\<close>

fun is_dest :: "root \<Rightarrow> nat \<Rightarrow> bool" where
  "is_dest Ellipsis rank = True"
| "is_dest (Rank k) rank = (rank = k)"

text \<open>
  The loop over the field names on one rank, given what the recursive calls returned on
  this rank: a destination rank stores every gathered column in its receive buffer.
\<close>

fun store_columns :: "val ndarray option \<Rightarrow> (string \<times> val ndarray option) list \<Rightarrow> val ndarray option" where
  "store_columns recvbuffer [] = recvbuffer"
| "store_columns (Some recvbuffer) ((name, Some d) # rest) =
     store_columns (Some (assign_column name recvbuffer d)) rest"
| "store_columns recvbuffer ((name, d) # rest) = store_columns recvbuffer rest"

text \<open>The first exception of a sequence of calls, if any.\<close>

fun first_error :: "(error + 'a) list \<Rightarrow> error option" where
  "first_error [] = None"
| "first_error (Inl e # rs) = Some e"
| "first_error (Inr v # rs) = first_error rs"

text \<open>
  The body of \<open>GatherArray\<close> after the \<open>isinstance\<close> check, on all ranks at once. Every
  branch below is decided by gathered or broadcast values, which are the same on all
  ranks, so either every rank raises the same exception (\<open>Inl\<close>) or every rank returns
  (\<open>Inr\<close>, with the per-rank results: the gathered array on a destination rank and \<open>None\<close>
  elsewhere).

  In the structured case the function calls itself on the column of every field, in the
  order of the fields of rank 0; the calls are independent of each other, so the model
  computes them all and raises what the first failing one raises.

  In the flat case the flags are computed on the destination ranks and then broadcast
  with \<open>comm.bcast\<close>, whose root is rank 0: what every rank receives is what rank 0 holds,
  the flags if rank 0 is a destination and \<open>(None, None)\<close> otherwise. The transport moves
  the rows as opaque records; the model keeps their values. A \<open>root\<close> that is not a rank
  of the communicator is refused by the transport on every rank.
\<close>

function GatherArray_core :: "val ndarray list \<Rightarrow> root \<Rightarrow> error + val ndarray option list" where
  "GatherArray_core datas root =
     (case datas of
        [] \<Rightarrow> Inr []
      | data0 # others \<Rightarrow>
          (let nranks = length datas;
               local_lengths = map (\<lambda>data. length (nd_rows data)) datas;
               dtypes = map nd_dtype datas;
               newlength = sum_list local_lengths
           in case nd_dtype data0 of
                Struct flds \<Rightarrow>
                  if list_ex (\<lambda>dt. \<not> is_Struct dt) (tl dtypes)
                  then Inl (TypeError ''NoneType object is not iterable'')
                  else if list_ex (\<lambda>dt. set (field_names dt) \<noteq> set (map fst flds)) (tl dtypes)
                  then Inl (ValueError ''mismatch between data type fields in structured data'')
                  else if list_ex (\<lambda>(name, d). d = Object) flds
                  then Inl (ValueError ''object data types (O) not allowed in structured data in GatherArray'')
                  else
                    (let recvbuffers =
                           map (\<lambda>rank. if is_dest root rank
                                        then Some (np_empty newlength (nd_trail (datas ! rank)) (Struct flds))
                                        else None) [0..<nranks];
                         gathered_columns =
                           map (\<lambda>(name, d). GatherArray_core (map (column name) datas) root) flds
                     in case first_error gathered_columns of
                          Some e \<Rightarrow> Inl e
                        | None \<Rightarrow>
                            Inr (map (\<lambda>rank. store_columns (recvbuffers ! rank)
                                                (zip (map fst flds)
                                                     (map (\<lambda>ds. projr ds ! rank) gathered_columns)))
                                     [0..<nranks]))
              | dt0 \<Rightarrow>
                  if dt0 = Object
                  then Inl (ValueError ''object data types (O) not allowed in structured data in GatherArray'')
                  else
                    (let bad_shape = list_ex (\<lambda>data. nd_trail data \<noteq> nd_trail data0) others;
                         bad_dtype = list_ex (\<lambda>dt. dt \<noteq> dt0) (tl dtypes);
                         flags = (if is_dest root 0 then Some (bad_shape, bad_dtype) else None)
                     in if (case flags of Some (b, _) \<Rightarrow> b | None \<Rightarrow> False)
                        then Inl (ValueError ''mismatch between shape[1:] across ranks in GatherArray'')
                        else if (case flags of Some (_, b) \<Rightarrow> b | None \<Rightarrow> False)
                        then Inl (ValueError ''mismatch between dtypes across ranks in GatherArray'')
                        else if (case root of Rank k \<Rightarrow> k \<ge> nranks | Ellipsis \<Rightarrow> False)
                        then Inl (MPIError ''invalid root'')
                        else
                          Inr (map (\<lambda>rank. if is_dest root rank
                                             then Some \<lparr> nd_dtype = nd_dtype (datas ! rank),
                                                         nd_trail = nd_trail (datas ! rank),
                                                         nd_rows = concat (map nd_rows datas) \<rparr>
                                             else None) [0..<nranks]))))"
  by pat_completeness auto
termination
proof (relation "measure (\<lambda>(datas, root). case datas of [] \<Rightarrow> 0 | data0 # _ \<Rightarrow> size (nd_dtype data0))")
  show "wf (measure (\<lambda>(datas, root). case datas of [] \<Rightarrow> 0 | data0 # _ \<Rightarrow> size (nd_dtype data0)))"
    by simp
next
  fix datas :: "val ndarray list" and root :: root and data0 others flds
    and fld :: "string \<times> dtype" and name d
  assume datas: "datas = data0 # others" and dt: "nd_dtype data0 = Struct flds"
    and fld: "fld \<in> set flds" "(name, d) = fld"
  have mem: "(name, d) \<in> set flds" using fld by simp
  have "size (field_dtype (Struct flds) name) < size (Struct flds)"
  proof (cases "map_of flds name")
    case None
    then show ?thesis by simp
  next
    case (Some d')
    then have "(name, d') \<in> set flds" by (rule map_of_SomeD)
    then have "size_prod (\<lambda>_. 0) size (name, d') \<le> size_list (size_prod (\<lambda>_. 0) size) flds"
      by (simp add: size_list_estimation')
    then show ?thesis using Some by simp
  qed
  then show "((map (column name) datas, root), (datas, root))
        \<in> measure (\<lambda>(datas, root). case datas of [] \<Rightarrow> 0 | data0 # _ \<Rightarrow> size (nd_dtype data0))"
    using datas dt by (simp add: column_def)
qed

declare GatherArray_core.simps [simp del]

text \<open>
  \<open>GatherArray\<close> on all ranks at once; \<open>None\<close> stands for an argument that is not a numpy
  array. A rank with such an argument raises before the first collective call, and the
  other ranks then wait in \<open>comm.allgather\<close> for ever.
\<close>

definition GatherArray :: "val ndarray option list \<Rightarrow> root \<Rightarrow> val ndarray option outcome list" where
  "GatherArray datas root =
     (if list_ex (\<lambda>data. data = None) datas
      then map (\<lambda>data. case data of
                         None \<Rightarrow> Raised (ValueError ''data must by numpy array in GatherArray'')
                       | Some _ \<Rightarrow> Hung) datas
      else (case GatherArray_core (map the datas) root of
              Inl e \<Rightarrow> replicate (length datas) (Raised e)
            | Inr results \<Rightarrow> map Returned results))"

section \<open>ScatterArray\<close>

text \<open>
  \<open>comm.Scatterv\<close>, whose root is rank 0 as the call names none: rank \<open>rank\<close> receives
  \<open>counts[rank]\<close> rows of the send buffer of rank 0, from the row \<open>offsets[rank]\<close> on, where
  \<open>offsets\<close> is the exclusive prefix sum of \<open>counts\<close>. A send buffer shorter than the counts
  ask for is outside of what the transport defines; the model reports it as an error of
  the transport on every rank.
\<close>

definition Scatterv ::
  "val list \<Rightarrow> nat list \<Rightarrow> dtype \<Rightarrow> nat list \<Rightarrow> val ndarray outcome list" where
  "Scatterv sendbuffer counts dt trail =
     (if length sendbuffer < sum_list counts
      then replicate (length counts) (Raised (MPIError ''send buffer too small''))
      else map (\<lambda>rank. Returned \<lparr> nd_dtype = dt, nd_trail = trail,
                                   nd_rows = take (counts ! rank)
                                               (drop (sum_list (take rank counts)) sendbuffer) \<rparr>)
               [0..<length counts])"

text \<open>
  \<open>ScatterArray\<close> on all ranks at once: \<open>datas\<close> are the per-rank \<open>data\<close> arguments (\<open>None\<close>
  for Python's \<open>None\<close>), \<open>root\<close> and \<open>counts\<close> are the same on every rank.

  Both \<open>comm.bcast\<close> calls have rank 0 as their root. The first sends what rank 0 holds in
  \<open>bad_input\<close>: the result of the check if rank 0 is \<open>root\<close>, and \<open>None\<close> otherwise. The
  second sends the shape and element type that rank 0 reads from its own \<open>data\<close> under
  \<open>if comm.rank == 0\<close>; if that \<open>data\<close> is \<open>None\<close>, rank 0 raises \<open>AttributeError\<close> there
  and the other ranks wait in the broadcast for ever. Every rank but \<open>root\<close> replaces its
  \<open>data\<close> by an empty array, so the send buffer of rank 0 is its \<open>data\<close> only if rank 0 is
  \<open>root\<close>.
\<close>

definition ScatterArray ::
  "val ndarray option list \<Rightarrow> nat \<Rightarrow> nat list option \<Rightarrow> val ndarray outcome list" where
  "ScatterArray datas root counts =
     (let nranks = length datas in
      if (case counts of Some c \<Rightarrow> length c \<noteq> nranks | None \<Rightarrow> False)
      then replicate nranks (Raised (ValueError ''counts array has wrong length!''))
      else
        (case datas of
           [] \<Rightarrow> []
         | data0 # others \<Rightarrow>
             (let bad_input = (if 0 = root then Some (data0 = None) else None) in
              if bad_input = Some True
              then replicate nranks
                     (Raised (ValueError ''data must by numpy array on root in ScatterArray''))
              else
                (case data0 of
                   None \<Rightarrow>
                     Raised (AttributeError ''NoneType object has no attribute flags'')
                       # map (\<lambda>data. Hung) others
                 | Some source \<Rightarrow>
                     (let shape0 = length (nd_rows source);
                          trail = nd_trail source;
                          dt = nd_dtype source;
                          fail = (case dt of
                                    Struct flds \<Rightarrow> list_ex (\<lambda>(name, d). d = Object) flds
                                  | _ \<Rightarrow> dt = Object)
                      in if fail
                         then replicate nranks
                                (Raised (ValueError ''object data type not supported in ScatterArray''))
                         else
                           (let sendbuffer = (if 0 \<noteq> root then [] else nd_rows source) in
                            case counts of
                              None \<Rightarrow>
                                Scatterv sendbuffer
                                  (map (\<lambda>rank. shape0 div nranks
                                                 + (if rank < shape0 mod nranks then 1 else 0))
                                       [0..<nranks])
                                  dt trail
                            | Some c \<Rightarrow>
                                if sum_list c \<noteq> shape0
                                then replicate nranks
                                       (Raised (ValueError
                                          ''the sum of the counts array needs to be equal to data length''))
                                else Scatterv sendbuffer c dt trail))))))"

section \<open>The EmptyRank sentinel as an object\<close>

text \<open>
  The sections above read the sentinel as a constructor. Here it is an object with an
  identity, as in the source, to follow it through the pickling that \<open>comm.allgather\<close>
  does. An object is an instance of \<open>EmptyRankType\<close> or an element of an array; its
  identity is a number, as \<open>id()\<close> gives it within one interpreter.
\<close>

datatype 'a content = EmptyRankType | Element 'a

record 'a pyobj =
  obj_id :: nat
  obj_content :: "'a content"

text \<open>
  The interpreter of one rank, as far as the sentinel is concerned: the module global
  \<open>EmptyRank\<close> and the first identity no object has yet.
\<close>

record 'a interp =
  EmptyRank_global :: "'a pyobj"
  next_id :: nat

text \<open>\<open>EmptyRank = EmptyRankType()\<close>, executed once when the module is imported.\<close>

definition import_module :: "nat \<Rightarrow> 'a interp" where
  "import_module free =
     \<lparr> EmptyRank_global = \<lparr> obj_id = free, obj_content = EmptyRankType \<rparr>, next_id = Suc free \<rparr>"

text \<open>\<open>_get_empty_rank()\<close> returns the module global.\<close>

definition get_empty_rank :: "'a interp \<Rightarrow> 'a pyobj" where
  "get_empty_rank s = EmptyRank_global s"

text \<open>
  A pickle either names a module-level function to call without arguments, which is what
  \<open>__reduce__\<close> of \<open>EmptyRankType\<close> returns, \<open>(_get_empty_rank, ())\<close>, or it holds the value of an
  element.
\<close>

datatype callable = Get_empty_rank

datatype 'a pickle = Reduce callable | Bytes 'a

definition EmptyRankType_reduce :: callable where
  "EmptyRankType_reduce = Get_empty_rank"

definition dumps :: "'a pyobj \<Rightarrow> 'a pickle" where
  "dumps obj =
     (case obj_content obj of
        EmptyRankType \<Rightarrow> Reduce EmptyRankType_reduce
      | Element v \<Rightarrow> Bytes v)"

fun call :: "'a interp \<Rightarrow> callable \<Rightarrow> 'a pyobj" where
  "call s Get_empty_rank = get_empty_rank s"

text \<open>
  Unpickling in the interpreter \<open>s\<close>: a reduced object is what the named function returns
  there; an element becomes a new object.
\<close>

definition loads :: "'a interp \<Rightarrow> 'a pickle \<Rightarrow> 'a pyobj \<times> 'a interp" where
  "loads s p =
     (case p of
        Reduce f \<Rightarrow> (call s f, s)
      | Bytes v \<Rightarrow> (\<lparr> obj_id = next_id s, obj_content = Element v \<rparr>,
                    s \<lparr> next_id := Suc (next_id s) \<rparr>))"

fun loads_all :: "'a interp \<Rightarrow> 'a pickle list \<Rightarrow> 'a pyobj list \<times> 'a interp" where
  "loads_all s [] = ([], s)"
| "loads_all s (p # ps) =
     (case loads s p of (x, s1) \<Rightarrow>
        (case loads_all s1 ps of (xs, s2) \<Rightarrow> (x # xs, s2)))"

text \<open>
  \<open>comm.allgather(obj)\<close> as one rank sees it: every rank pickles its object, and this rank
  unpickles them in rank order.
\<close>

definition allgather_objects :: "'a interp \<Rightarrow> 'a pyobj list \<Rightarrow> 'a pyobj list \<times> 'a interp" where
  "allgather_objects s sent = loads_all s (map dumps sent)"

text \<open>Python's \<open>is\<close>.\<close>

definition is_object :: "'a pyobj \<Rightarrow> 'a pyobj \<Rightarrow> bool" where
  "is_object a b = (obj_id a = obj_id b)"

text \<open>The loops of \<open>prev()\<close> and \<open>next()\<close> with their identity tests.\<close>

fun first_not_EmptyRank :: "'a interp \<Rightarrow> 'a pyobj list \<Rightarrow> 'a pyobj" where
  "first_not_EmptyRank s [] = EmptyRank_global s"
| "first_not_EmptyRank s (x # xs) =
     (if \<not> is_object x (EmptyRank_global s) then x else first_not_EmptyRank s xs)"

definition prev_objects :: "'a interp \<Rightarrow> 'a pyobj list \<Rightarrow> nat \<Rightarrow> 'a pyobj" where
  "prev_objects s tails_received rank = first_not_EmptyRank s (rev (take rank tails_received))"

definition next_objects :: "'a interp \<Rightarrow> 'a pyobj list \<Rightarrow> nat \<Rightarrow> 'a pyobj" where
  "next_objects s heads_received rank = first_not_EmptyRank s (drop (rank + 1) heads_received)"

text \<open>The boundary value an object stands for.\<close>

definition as_boundary :: "'a pyobj \<Rightarrow> 'a boundary" where
  "as_boundary obj = (case obj_content obj of EmptyRankType \<Rightarrow> EmptyRank | Element v \<Rightarrow> Item v)"

text \<open>
  What holds of an interpreter after the import: the global is an instance of
  \<open>EmptyRankType\<close>, and its identity is taken.
\<close>

definition interp_ok :: "'a interp \<Rightarrow> bool" where
  "interp_ok s =
     (obj_content (EmptyRank_global s) = EmptyRankType \<and> obj_id (EmptyRank_global s) < next_id s)"

section \<open>Properties of the construction\<close>

lemma remdups_const:
  assumes "xs \<noteq> []" "\<And>x. x \<in> set xs \<Longrightarrow> x = d"
  shows "remdups xs = [d]"
  using assms
proof (induction xs)
  case Nil then show ?case by simp
next
  case (Cons a xs)
  show ?case
  proof (cases "xs = []")
    case True with Cons.prems show ?thesis by simp
  next
    case False
    with Cons have "remdups xs = [d]" by simp
    moreover have "a = d" using Cons.prems by simp
    moreover have "d \<in> set xs" using False Cons.prems(2) by (cases xs) auto
    ultimately show ?thesis by simp
  qed
qed

lemma find_cshape_same_trail:
  assumes "shapes \<noteq> []" "\<And>s. s \<in> set shapes \<Longrightarrow> tl s = trail" "rank < length shapes"
  shows "find_cshape shapes rank = Inr (sum_list (map hd shapes) # trail)"
proof -
  have "remdups (map tl shapes) = [trail]"
    using assms(1,2) by (intro remdups_const) auto
  moreover have "tl (shapes ! rank) = trail" using assms(2,3) by simp
  ultimately show ?thesis by (simp add: find_cshape_def)
qed

lemma find_dtype_common:
  assumes "\<And>d. Some d \<in> set dtypes \<Longrightarrow> d = dt" "Some dt \<in> set dtypes"
  shows "find_dtype dtypes = Inr dt"
proof -
  have "set (List.map_filter (\<lambda>d. d) dtypes) = {d. Some d \<in> set dtypes}"
    by (induction dtypes) (auto simp: map_filter_simps split: option.splits)
  then have "remdups (List.map_filter (\<lambda>d. d) dtypes) = [dt]"
    using assms by (intro remdups_const) auto
  then show ?thesis by (simp add: find_dtype_def)
qed

lemma DistributedArray_success:
  assumes nonempty: "\<exists>a \<in> set locals. nd_rows a \<noteq> [] "
    and dt: "\<And>a. a \<in> set locals \<Longrightarrow> nd_rows a \<noteq> [] \<Longrightarrow> nd_dtype a = dt"
    and tr: "\<And>a. a \<in> set locals \<Longrightarrow> nd_trail a = trail"
  shows "DistributedArray locals =
           map (\<lambda>rank. Returned \<lparr> da_local = locals ! rank, da_dtype = dt,
                   da_cshape = sum_list (map (\<lambda>a. length (nd_rows a)) locals) # trail,
                   da_coffset = sum_list (take rank (map (\<lambda>a. length (nd_rows a)) locals)) \<rparr>)
               [0..<length locals]"
proof -
  let ?dtypes = "map (\<lambda>a. if length (nd_rows a) \<noteq> 0 then Some (nd_dtype a) else None) locals"
  let ?shapes = "map nd_shape locals"
  have ne: "locals \<noteq> []" using nonempty by auto
  have fd: "find_dtype ?dtypes = Inr dt"
  proof (rule find_dtype_common)
    fix d assume "Some d \<in> set ?dtypes"
    then show "d = dt" using dt by (auto split: if_splits)
  next
    from nonempty obtain a where "a \<in> set locals" "nd_rows a \<noteq> []" by auto
    then show "Some dt \<in> set ?dtypes" using dt[of a] by (auto simp: image_iff intro!: bexI[of _ a])
  qed
  have hd: "map hd ?shapes = map (\<lambda>a. length (nd_rows a)) locals"
    by (simp add: nd_shape_def)
  have fc: "find_cshape ?shapes rank = Inr (sum_list (map (\<lambda>a. length (nd_rows a)) locals) # trail)"
    if "rank < length locals" for rank
  proof -
    have "?shapes \<noteq> []" using ne by simp
    moreover have "\<And>s. s \<in> set ?shapes \<Longrightarrow> tl s = trail"
      using tr by (auto simp: nd_shape_def)
    moreover have "rank < length ?shapes" using that by simp
    ultimately have "find_cshape ?shapes rank = Inr (sum_list (map hd ?shapes) # trail)"
      by (rule find_cshape_same_trail)
    then show ?thesis by (simp only: hd)
  qed
  have fc0: "find_cshape ?shapes 0 = Inr (sum_list (map (\<lambda>a. length (nd_rows a)) locals) # trail)"
    using fc[of 0] ne by simp
  show ?thesis
    unfolding DistributedArray_def Let_def fd fc0 hd
    by (simp add: fc)
qed

section \<open>The partition made by cempty\<close>

lemma cempty_llen_telescope:
  "(\<Sum>r<n. cempty_llen L r P) = int L * int n div int P"
  by (induction n) (simp_all add: cempty_llen_def algebra_simps)

lemma cempty_llen_sum:
  assumes "0 < P"
  shows "(\<Sum>r<P. cempty_llen L r P) = int L"
  using assms by (simp add: cempty_llen_telescope)

lemma cempty_llen_split:
  assumes "0 < P"
  shows "cempty_llen L r P = int (L div P) + (int L * int r mod int P + int (L mod P)) div int P"
proof -
  have "(int L * int r + int L) div int P
        = int L * int r div int P + int L div int P
          + (int L * int r mod int P + int L mod int P) div int P"
    by (rule div_add1_eq)
  then show ?thesis
    by (simp add: cempty_llen_def algebra_simps zdiv_int zmod_int)
qed

lemma cempty_llen_range:
  assumes "0 < P"
  shows "cempty_llen L r P = int (L div P) \<or> cempty_llen L r P = int (L div P) + 1"
proof -
  let ?a = "int L * int r mod int P" and ?b = "int (L mod P)"
  have a: "0 \<le> ?a" "?a < int P" using assms by simp_all
  have b: "0 \<le> ?b" "?b < int P" using assms by simp_all
  have "(?a + ?b) div int P = 0 \<or> (?a + ?b) div int P = 1"
  proof (cases "?a + ?b < int P")
    case True
    then show ?thesis using a b by simp
  next
    case False
    have "?a + ?b = int P * 1 + (?a + ?b - int P)" by simp
    moreover have "0 \<le> ?a + ?b - int P" using False by linarith
    moreover have "?a + ?b - int P < int P" using a(2) b(2) by linarith
    ultimately have "(?a + ?b) div int P = 1"
      by (rule int_div_pos_eq)
    then show ?thesis by simp
  qed
  then show ?thesis using cempty_llen_split[OF assms, of L r] by auto
qed

lemma cempty_llen_exact:
  assumes "0 < P" "L mod P = 0"
  shows "cempty_llen L r P = int (L div P)"
proof -
  have "int P dvd int L" using assms(2) by (simp add: dvd_eq_mod_eq_0 flip: zmod_int) 
  then have "int L * int r mod int P = 0" by simp
  then show ?thesis using cempty_llen_split[OF assms(1), of L r] assms by simp
qed

lemma sum_list_two_values:
  fixes xs :: "nat list"
  assumes "\<And>x. x \<in> set xs \<Longrightarrow> x = q \<or> x = q + 1"
  shows "sum_list xs = q * length xs + length (filter (\<lambda>x. x = q + 1) xs)"
  using assms by (induction xs) auto

lemma cempty_llen_nonneg:
  assumes "0 < P" shows "0 \<le> cempty_llen L r P"
  using cempty_llen_range[OF assms, of L r] by auto

lemma cempty_llens_sum:
  assumes "0 < P"
  shows "sum_list (map (\<lambda>rank. nat (cempty_llen L rank P)) [0..<P]) = L"
proof -
  have "int (sum_list (map (\<lambda>rank. nat (cempty_llen L rank P)) [0..<P]))
        = (\<Sum>r<P. int (nat (cempty_llen L r P)))"
    by (simp add: sum_list_sum_nth atLeast0LessThan)
  also have "\<dots> = (\<Sum>r<P. cempty_llen L r P)"
    using cempty_llen_nonneg[OF assms] by simp
  also have "\<dots> = int L" by (rule cempty_llen_sum[OF assms])
  finally show ?thesis by simp
qed

lemma cempty_returns:
  assumes fd: "find_dtype dtypes = Inr dt" and L: "0 < L"
  shows "cempty uninit (L # trail) dtypes =
           map (\<lambda>rank. Returned
                  \<lparr> da_local = \<lparr> nd_dtype = dt, nd_trail = trail,
                                 nd_rows = replicate (nat (cempty_llen L rank (length dtypes))) uninit \<rparr>,
                    da_dtype = dt,
                    da_cshape = L # trail,
                    da_coffset = sum_list (map (\<lambda>r. nat (cempty_llen L r (length dtypes))) [0..<rank]) \<rparr>)
               [0..<length dtypes]"
proof -
  let ?P = "length dtypes"
  let ?llens = "map (\<lambda>rank. nat (cempty_llen L rank ?P)) [0..<?P]"
  let ?shapes = "map (\<lambda>llen. llen # trail) ?llens"
  let ?locals = "map (\<lambda>llen. \<lparr> nd_dtype = dt, nd_trail = trail, nd_rows = replicate llen uninit \<rparr>) ?llens"
  have P: "0 < ?P" using fd by (cases dtypes) (auto simp: find_dtype_def map_filter_simps)
  have sum: "sum_list ?llens = L" by (rule cempty_llens_sum[OF P])
  have fc: "find_cshape ?shapes 0 = Inr (sum_list (map hd ?shapes) # trail)"
    using P by (intro find_cshape_same_trail) auto
  have hd: "map hd ?shapes = ?llens" by (simp add: comp_def)
  have fc': "find_cshape ?shapes 0 = Inr (L # trail)"
    using fc sum unfolding hd by simp
  have lens: "map (\<lambda>a. length (nd_rows a)) ?locals = ?llens" by (simp add: comp_def)
  have "\<exists>l \<in> set ?llens. l \<noteq> 0"
  proof (rule ccontr)
    assume "\<not> ?thesis"
    then have "sum_list ?llens = 0" by (simp add: sum_list_eq_0_iff del: set_map set_upt)
    with sum L show False by simp
  qed
  then obtain l where l: "l \<in> set ?llens" "l \<noteq> 0" by blast
  have ne: "\<exists>a \<in> set ?locals. nd_rows a \<noteq> []"
  proof -
    let ?a = "\<lparr> nd_dtype = dt, nd_trail = trail, nd_rows = replicate l uninit \<rparr>"
    have "?a \<in> set ?locals" using l(1) unfolding set_map by (rule imageI)
    moreover have "nd_rows ?a \<noteq> []" using l(2) by simp
    ultimately show ?thesis by blast
  qed
  have da: "DistributedArray ?locals =
           map (\<lambda>rank. Returned \<lparr> da_local = ?locals ! rank, da_dtype = dt,
                   da_cshape = sum_list (map (\<lambda>a. length (nd_rows a)) ?locals) # trail,
                   da_coffset = sum_list (take rank (map (\<lambda>a. length (nd_rows a)) ?locals)) \<rparr>)
               [0..<length ?locals]"
    using ne by (intro DistributedArray_success) auto
  have "cempty uninit (L # trail) dtypes = DistributedArray ?locals"
    unfolding cempty_def Let_def fd using fc' by simp
  also note da
  finally show ?thesis
    unfolding lens sum by (simp add: take_map cong: map_cong)
qed

lemma ceil_div:
  fixes L P :: nat
  assumes "0 < P"
  shows "(L + P - 1) div P = (if L mod P = 0 then L div P else L div P + 1)"
proof -
  define q m where "q = L div P" and "m = L mod P"
  have L: "L = P * q + m" and m: "m < P" using assms by (simp_all add: q_def m_def)
  show ?thesis
  proof (cases "m = 0")
    case True
    have "P * q \<le> L + P - 1" using L assms by simp
    moreover have "L + P - 1 < P * Suc q" using L True assms by simp
    ultimately have "(L + P - 1) div P = q" by (rule div_nat_eqI)
    then show ?thesis using True by (simp add: q_def m_def)
  next
    case False
    have "P * (q + 1) \<le> L + P - 1" using L False by (simp add: algebra_simps)
    moreover have "L + P - 1 < P * Suc (q + 1)" using L m by (simp add: algebra_simps)
    ultimately have "(L + P - 1) div P = q + 1" by (rule div_nat_eqI)
    then show ?thesis using False by (simp add: q_def m_def)
  qed
qed

text \<open>
  Claim C7, as the code has it. For a global length \<open>L \<ge> 1\<close> and per-rank \<open>dtype\<close>
  arguments that agree, \<open>cempty\<close> returns on every rank; every local length is
  \<open>floor(L/P)\<close> or \<open>ceil(L/P)\<close>, the local lengths sum to \<open>L\<close>, and exactly \<open>L mod P\<close> ranks
  hold the extra element. Rank \<open>r\<close> holds \<open>L*(r+1)//P - L*r//P\<close> rows, which does not put
  the extra elements on the lowest-numbered ranks.
\<close>

theorem cempty_partition:
  assumes "find_dtype dtypes = Inr dt" and "0 < L"
  shows "\<exists>ds. cempty uninit (L # trail) dtypes = map Returned ds \<and>
           length ds = length dtypes \<and>
           list_all (\<lambda>d. local_length d = L div length dtypes \<or>
                          local_length d = (L + length dtypes - 1) div length dtypes) ds \<and>
           sum_list (map local_length ds) = L \<and>
           length (filter (\<lambda>d. local_length d = L div length dtypes + 1) ds) = L mod length dtypes \<and>
           (\<forall>rank < length dtypes. int (local_length (ds ! rank)) = cempty_llen L rank (length dtypes))"
proof -
  let ?P = "length dtypes"
  let ?d = "\<lambda>rank. \<lparr> da_local = \<lparr> nd_dtype = dt, nd_trail = trail,
                                 nd_rows = replicate (nat (cempty_llen L rank ?P)) uninit \<rparr>,
                    da_dtype = dt, da_cshape = L # trail,
                    da_coffset = sum_list (map (\<lambda>r. nat (cempty_llen L r ?P)) [0..<rank]) \<rparr>"
  let ?ds = "map ?d [0..<?P]"
  have P: "0 < ?P" using assms(1) by (cases dtypes) (auto simp: find_dtype_def map_filter_simps)
  have ret: "cempty uninit (L # trail) dtypes = map Returned ?ds"
    using cempty_returns[OF assms] by (simp add: comp_def)
  have len: "local_length (?d rank) = nat (cempty_llen L rank ?P)" for rank
    by (simp add: local_length_def)
  have lens: "map local_length ?ds = map (\<lambda>rank. nat (cempty_llen L rank ?P)) [0..<?P]"
    by (simp add: comp_def local_length_def)
  have sum: "sum_list (map local_length ?ds) = L"
    unfolding lens by (rule cempty_llens_sum[OF P])
  have ceil: "(L + ?P - 1) div ?P = (if L mod ?P = 0 then L div ?P else L div ?P + 1)"
    by (rule ceil_div[OF P])
  have range: "local_length (?d rank) = L div ?P \<or> local_length (?d rank) = (L + ?P - 1) div ?P" for rank
  proof (cases "L mod ?P = 0")
    case True
    then show ?thesis using cempty_llen_exact[OF P True, of rank] by (simp add: local_length_def)
  next
    case False
    then have "(L + ?P - 1) div ?P = L div ?P + 1" using ceil by simp
    then show ?thesis using cempty_llen_range[OF P, of L rank]
      by (auto simp: local_length_def nat_add_distrib)
  qed
  have two: "x = L div ?P \<or> x = L div ?P + 1" if "x \<in> set (map local_length ?ds)" for x
  proof -
    from that obtain rank where "x = nat (cempty_llen L rank ?P)" unfolding lens by auto
    then show ?thesis using cempty_llen_range[OF P, of L rank] by (auto simp: nat_add_distrib)
  qed
  have "L = L div ?P * ?P + length (filter (\<lambda>x. x = L div ?P + 1) (map local_length ?ds))"
    using sum_list_two_values[of "map local_length ?ds" "L div ?P", OF two] sum by simp
  then have "length (filter (\<lambda>x. x = L div ?P + 1) (map local_length ?ds)) = L - L div ?P * ?P"
    by linarith
  also have "\<dots> = L mod ?P" by (rule minus_div_mult_eq_mod)
  finally have "length (filter (\<lambda>x. x = L div ?P + 1) (map local_length ?ds)) = L mod ?P" .
  then have cnt: "length (filter (\<lambda>d. local_length d = L div ?P + 1) ?ds) = L mod ?P"
    by (simp add: filter_map comp_def)
  have exact: "\<forall>rank < ?P. int (local_length (?ds ! rank)) = cempty_llen L rank ?P"
    using cempty_llen_nonneg[OF P] by (simp add: local_length_def)
  have all: "list_all (\<lambda>d. local_length d = L div ?P \<or> local_length d = (L + ?P - 1) div ?P) ?ds"
    unfolding list_all_iff using range by auto
  have length_ds: "length ?ds = ?P" by simp
  show ?thesis
    by (intro exI[of _ ?ds] conjI) (fact ret length_ds all sum cnt exact)+
qed

theorem cempty_partition_witness:
  "find_dtype [Some (Scalar ''i8''), Some (Scalar ''i8''), None] = Inr (Scalar ''i8'') \<and> (0::nat) < 5 \<and>
   (\<exists>ds. cempty (0::int) [5, 2] [Some (Scalar ''i8''), Some (Scalar ''i8''), None] = map Returned ds \<and>
         length ds = 3 \<and> sum_list (map local_length ds) = 5 \<and>
         length (filter (\<lambda>d. local_length d = 5 div 3 + 1) ds) = 5 mod 3)"
proof -
  have fd: "find_dtype [Some (Scalar ''i8''), Some (Scalar ''i8''), None] = Inr (Scalar ''i8'')"
    by (simp add: find_dtype_def map_filter_simps)
  have L: "(0::nat) < 5" by simp
  have len: "length [Some (Scalar ''i8''), Some (Scalar ''i8''), None] = 3" by simp
  from cempty_partition[OF fd L, of "0::int" "[2]", unfolded len]
  obtain ds where
    "cempty (0::int) [5, 2] [Some (Scalar ''i8''), Some (Scalar ''i8''), None] = map Returned ds"
    "length ds = 3" "sum_list (map local_length ds) = 5"
    "length (filter (\<lambda>d. local_length d = 5 div 3 + 1) ds) = 5 mod 3"
    by blast
  with fd L show ?thesis by blast
qed

text \<open>
  Claim C7 as stated fails: with \<open>L = 5\<close> on three ranks the remainder is 2, yet rank 0
  holds one row (the floor), not two; the local lengths are 1, 2, 2.
\<close>

theorem cempty_lowest_ranks_counterexample:
  "cempty (0::int) [5] [Some (Scalar ''i8''), Some (Scalar ''i8''), Some (Scalar ''i8'')] ! 0
     = Returned \<lparr> da_local = \<lparr> nd_dtype = Scalar ''i8'', nd_trail = [], nd_rows = [0] \<rparr>,
                  da_dtype = Scalar ''i8'', da_cshape = [5], da_coffset = 0 \<rparr>
   \<and> (0::nat) < 5 mod 3 \<and> (5::nat) div 3 + 1 = 2"
proof -
  have fd: "find_dtype [Some (Scalar ''i8''), Some (Scalar ''i8''), Some (Scalar ''i8'')] = Inr (Scalar ''i8'')"
    by (simp add: find_dtype_def map_filter_simps)
  have L: "(0::nat) < 5" by simp
  show ?thesis
    by (simp add: cempty_returns[OF fd L] upt_conv_Cons cempty_llen_def)
qed

section \<open>Empty ranks and the element type of a DistributedArray\<close>

text \<open>
  Claim C9, as the code has it. A rank whose local array is empty contributes \<open>None\<close> to
  \<open>_find_dtype\<close>, so its element type constrains nothing: when some rank holds a non-empty
  local array, all non-empty ranks share the element type \<open>dt\<close> and all ranks (empty ones
  included) share one trailing shape, the construction returns on every rank, with
  \<open>dtype = dt\<close> and the rank's own array as \<open>local\<close>, whatever the element types of the
  empty ranks are.
\<close>

theorem DistributedArray_empty_rank_dtype:
  assumes "\<exists>a \<in> set locals. nd_rows a \<noteq> []"
    and "\<forall>a \<in> set locals. nd_rows a \<noteq> [] \<longrightarrow> nd_dtype a = dt"
    and "\<forall>a \<in> set locals. nd_trail a = trail"
  shows "\<exists>ds. DistributedArray locals = map Returned ds \<and>
              length ds = length locals \<and>
              list_all (\<lambda>d. da_dtype d = dt) ds \<and>
              (\<forall>rank < length locals. da_local (ds ! rank) = locals ! rank)"
proof -
  let ?lens = "map (\<lambda>a. length (nd_rows a)) locals"
  let ?d = "\<lambda>rank. \<lparr> da_local = locals ! rank, da_dtype = dt,
                      da_cshape = sum_list ?lens # trail,
                      da_coffset = sum_list (take rank ?lens) \<rparr>"
  let ?ds = "map ?d [0..<length locals]"
  have "DistributedArray locals = map (\<lambda>rank. Returned (?d rank)) [0..<length locals]"
    using assms by (intro DistributedArray_success) auto
  then have ret: "DistributedArray locals = map Returned ?ds" by (simp add: comp_def)
  have len: "length ?ds = length locals" by simp
  have dt: "list_all (\<lambda>d. da_dtype d = dt) ?ds" by (simp add: list_all_iff)
  have loc: "\<forall>rank < length locals. da_local (?ds ! rank) = locals ! rank" by simp
  show ?thesis
    by (intro exI[of _ ?ds] conjI) (fact ret len dt loc)+
qed

theorem DistributedArray_empty_rank_dtype_witness:
  "\<exists>ds. DistributedArray
           [\<lparr> nd_dtype = Scalar ''i8'', nd_trail = [], nd_rows = [1, 2 :: int] \<rparr>,
            \<lparr> nd_dtype = Scalar ''f8'', nd_trail = [], nd_rows = [] \<rparr>] = map Returned ds \<and>
         length ds = 2 \<and> list_all (\<lambda>d. da_dtype d = Scalar ''i8'') ds"
proof -
  let ?locals = "[\<lparr> nd_dtype = Scalar ''i8'', nd_trail = [], nd_rows = [1, 2 :: int] \<rparr>,
                  \<lparr> nd_dtype = Scalar ''f8'', nd_trail = [], nd_rows = [] \<rparr>]"
  have 1: "\<exists>a \<in> set ?locals. nd_rows a \<noteq> []" by simp
  have 2: "\<forall>a \<in> set ?locals. nd_rows a \<noteq> [] \<longrightarrow> nd_dtype a = Scalar ''i8''" by simp
  have 3: "\<forall>a \<in> set ?locals. nd_trail a = []" by simp
  have len: "length ?locals = 2" by simp
  from DistributedArray_empty_rank_dtype[OF 1 2 3, unfolded len]
  show ?thesis by blast
qed

text \<open>
  Claim C9 as stated fails: the hypotheses on the element types alone do not make the
  construction succeed. Rank 0 holds one \<open>i8\<close> element, rank 1 an empty \<open>i8\<close> array of
  shape \<open>(0, 3)\<close>; \<open>_find_cshape\<close> raises on every rank.
\<close>

theorem DistributedArray_shape_counterexample:
  "DistributedArray
     [\<lparr> nd_dtype = Scalar ''i8'', nd_trail = [], nd_rows = [1 :: int] \<rparr>,
      \<lparr> nd_dtype = Scalar ''i8'', nd_trail = [3], nd_rows = [] \<rparr>]
   = [Raised (TypeError ''Shape of local array is inconsistent between ranks''),
      Raised (TypeError ''Shape of local array is inconsistent between ranks'')]"
  by (simp add: DistributedArray_def find_dtype_def find_cshape_def nd_shape_def map_filter_simps)

section \<open>Unique labels of a sorted distributed array\<close>

subsection \<open>Boundary values in terms of the rows\<close>

lemma first_item_heads:
  "first_item (heads locals) =
     (case concat (map nd_rows locals) of [] \<Rightarrow> EmptyRank | h # _ \<Rightarrow> Item h)"
proof (induction locals)
  case Nil
  then show ?case by (simp add: heads_def)
next
  case (Cons a locals)
  then show ?case by (cases "nd_rows a") (simp_all add: heads_def)
qed

lemma heads_drop: "drop n (heads locals) = heads (drop n locals)"
  by (simp add: heads_def drop_map)

lemma topology_next_rows:
  "topology_next locals rank =
     (case concat (map nd_rows (drop (rank + 1) locals)) of [] \<Rightarrow> EmptyRank | h # _ \<Rightarrow> Item h)"
  unfolding topology_next_def heads_drop by (rule first_item_heads)

subsection \<open>numpy.unique on one rank\<close>

lemma index_of_sorted_distinct:
  fixes ys :: "'a::linorder list"
  assumes "sorted ys" "distinct ys" "x \<in> set ys"
  shows "index_of ys x = card {v \<in> set ys. v < x}"
  using assms
proof (induction ys)
  case Nil
  then show ?case by simp
next
  case (Cons y ys)
  show ?case
  proof (cases "x = y")
    case True
    have "{v \<in> set (y # ys). v < y} = {}" using Cons.prems(1) by auto
    then show ?thesis using True by simp
  next
    case False
    then have x: "x \<in> set ys" using Cons.prems(3) by simp
    have "y < x" using Cons.prems(1) x False by auto
    then have "{v \<in> set (y # ys). v < x} = insert y {v \<in> set ys. v < x}" by auto
    moreover have "y \<notin> {v \<in> set ys. v < x}" using Cons.prems(2) by simp
    ultimately have "card {v \<in> set (y # ys). v < x} = Suc (card {v \<in> set ys. v < x})"
      by simp
    moreover have "index_of ys x = card {v \<in> set ys. v < x}"
      using Cons.IH Cons.prems x by simp
    ultimately show ?thesis using False by simp
  qed
qed

lemma np_unique_junk_length: "length (fst (np_unique xs)) = card (set xs)"
  by (simp add: np_unique_def Let_def length_remdups_card_conv)

lemma np_unique_inverse:
  "snd (np_unique xs) = map (\<lambda>x. card {v \<in> set xs. v < x}) xs"
proof -
  have "index_of (sort (remdups xs)) x = card {v \<in> set xs. v < x}" if "x \<in> set xs" for x
    using index_of_sorted_distinct[of "sort (remdups xs)" x] that by simp
  then show ?thesis by (simp add: np_unique_def Let_def)
qed

subsection \<open>Distinct groups of a sorted array split in three\<close>

lemma sorted_le_last:
  fixes X :: "'a::linorder list"
  assumes "sorted X" "x \<in> set X"
  shows "x \<le> last X"
proof -
  from assms(2) obtain i where i: "i < length X" "X ! i = x" by (auto simp: in_set_conv_nth)
  then have ne: "X \<noteq> []" by auto
  have "X ! i \<le> X ! (length X - 1)"
    using i(1) by (intro sorted_nth_mono[OF assms(1)]) auto
  then show ?thesis using i(2) ne by (simp add: last_conv_nth)
qed

lemma card_minus_suffix:
  fixes X R :: "'a::linorder list"
  assumes "sorted (X @ R)" "X \<noteq> []"
  shows "card (set X - set R) =
           (if (case R of [] \<Rightarrow> EmptyRank | h # _ \<Rightarrow> Item h) = Item (last X)
            then card (set X) - 1 else card (set X))"
proof (cases R)
  case Nil
  then show ?thesis by simp
next
  case (Cons h R')
  have le: "\<forall>x \<in> set X. \<forall>y \<in> set R. x \<le> y" using assms(1) by (simp add: sorted_append)
  have hmin: "\<forall>y \<in> set R. h \<le> y" using assms(1) Cons by (auto simp: sorted_append)
  have "sorted X" using assms(1) by (simp add: sorted_append)
  then have lmax: "\<forall>x \<in> set X. x \<le> last X" by (auto intro: sorted_le_last)
  have lastX: "last X \<in> set X" using assms(2) by simp
  show ?thesis
  proof (cases "h = last X")
    case True
    have "set X - set R = set X - {last X}"
    proof (intro equalityI subsetI)
      fix v assume "v \<in> set X - set R"
      then show "v \<in> set X - {last X}" using True Cons by auto
    next
      fix v assume v: "v \<in> set X - {last X}"
      then have "v < last X" using lmax by (auto simp: less_le)
      then have "v \<notin> set R" using hmin True by auto
      with v show "v \<in> set X - set R" by simp
    qed
    then show ?thesis using True Cons lastX by simp
  next
    case False
    have "set X \<inter> set R = {}"
    proof (rule ccontr)
      assume "set X \<inter> set R \<noteq> {}"
      then obtain v where v: "v \<in> set X" "v \<in> set R" by auto
      have "v \<le> last X" using lmax v by simp
      moreover have "last X \<le> h" using le lastX Cons by simp
      moreover have "h \<le> v" using hmin v by simp
      ultimately have "h = last X" by simp
      with False show False by simp
    qed
    then have "set X - set R = set X" by auto
    then show ?thesis using False Cons by simp
  qed
qed

lemma rank_split:
  fixes P X R :: "'a::linorder list"
  assumes "sorted (P @ X @ R)" "x \<in> set X"
  shows "card {v \<in> set (P @ X @ R). v < x}
           = card {v \<in> set X. v < x} + card (set P - set (X @ R))"
proof -
  have PX: "\<forall>p \<in> set P. \<forall>y \<in> set X \<union> set R. p \<le> y"
    and XR: "\<forall>a \<in> set X. \<forall>y \<in> set R. a \<le> y"
    using assms(1) by (auto simp: sorted_append)
  have "{v \<in> set (P @ X @ R). v < x} = {v \<in> set X. v < x} \<union> (set P - set (X @ R))"
  proof (intro equalityI subsetI)
    fix v assume "v \<in> {v \<in> set (P @ X @ R). v < x}"
    then have v: "v \<in> set P \<union> set X \<union> set R" "v < x" by auto
    have "v \<notin> set R"
    proof
      assume "v \<in> set R"
      then have "x \<le> v" using XR assms(2) by blast
      with v(2) show False by simp
    qed
    then show "v \<in> {v \<in> set X. v < x} \<union> (set P - set (X @ R))" using v by auto
  next
    fix v assume "v \<in> {v \<in> set X. v < x} \<union> (set P - set (X @ R))"
    then consider "v \<in> set X" "v < x" | "v \<in> set P" "v \<notin> set X" "v \<notin> set R" by auto
    then show "v \<in> {v \<in> set (P @ X @ R). v < x}"
    proof cases
      case 1 then show ?thesis by simp
    next
      case 2
      then have "v \<le> x" "v \<noteq> x" using PX assms(2) by auto
      then show ?thesis using 2 by simp
    qed
  qed
  moreover have "{v \<in> set X. v < x} \<inter> (set P - set (X @ R)) = {}" by auto
  ultimately show ?thesis by (simp add: card_Un_disjoint)
qed

lemma card_prefix_step:
  "card ((set P \<union> set X) - set R) = card (set P - (set X \<union> set R)) + card (set X - set R)"
proof -
  have "(set P \<union> set X) - set R = (set P - (set X \<union> set R)) \<union> (set X - set R)" by auto
  moreover have "(set P - (set X \<union> set R)) \<inter> (set X - set R) = {}" by auto
  ultimately show ?thesis by (simp add: card_Un_disjoint)
qed

subsection \<open>The adjusted counts and their prefix sums\<close>

lemma concat_rows_split:
  assumes "rank < length locals"
  shows "concat (map nd_rows locals)
           = concat (map nd_rows (take rank locals)) @ nd_rows (locals ! rank)
               @ concat (map nd_rows (drop (rank + 1) locals))"
proof -
  have "locals = take rank locals @ locals ! rank # drop (rank + 1) locals"
    using assms by (simp add: id_take_nth_drop)
  then have "concat (map nd_rows locals)
      = concat (map nd_rows (take rank locals @ locals ! rank # drop (rank + 1) locals))"
    by simp
  then show ?thesis by simp
qed

lemma Nunique_card:
  fixes locals :: "'a::linorder ndarray list"
  assumes "sorted (concat (map nd_rows locals))" "rank < length locals"
  shows "Nunique locals rank
           = int (card (set (nd_rows (locals ! rank))
                        - set (concat (map nd_rows (drop (rank + 1) locals)))))"
proof -
  let ?X = "nd_rows (locals ! rank)" and ?R = "concat (map nd_rows (drop (rank + 1) locals))"
  have sorted: "sorted (?X @ ?R)"
    using assms(1) unfolding concat_rows_split[OF assms(2)] by (simp add: sorted_append)
  show ?thesis
  proof (cases "?X = []")
    case True
    then show ?thesis by (simp add: Nunique_def)
  next
    case False
    then have pos: "0 < card (set ?X)" by (simp add: card_gt_0_iff)
    define b where "b = (case ?R of [] \<Rightarrow> EmptyRank | h # _ \<Rightarrow> Item h)"
    have nxt: "topology_next locals rank = b"
      unfolding b_def by (rule topology_next_rows)
    have c: "card (set ?X - set ?R) = (if b = Item (last ?X) then card (set ?X) - 1 else card (set ?X))"
      unfolding b_def by (rule card_minus_suffix[OF sorted False])
    have "Nunique locals rank
            = (if b = Item (last ?X) then int (card (set ?X)) - 1 else int (card (set ?X)))"
      using False by (simp add: Nunique_def Let_def np_unique_junk_length nxt)
    also have "\<dots> = int (card (set ?X - set ?R))"
      unfolding c using pos by (simp add: of_nat_diff)
    finally show ?thesis .
  qed
qed

lemma shift_card:
  fixes locals :: "'a::linorder ndarray list"
  assumes "sorted (concat (map nd_rows locals))" "rank \<le> length locals"
  shows "sum_list (take rank (map (Nunique locals) [0..<length locals]))
           = int (card (set (concat (map nd_rows (take rank locals)))
                        - set (concat (map nd_rows (drop rank locals)))))"
  using assms(2)
proof (induction rank)
  case 0
  then show ?case by simp
next
  case (Suc rank)
  then have r: "rank < length locals" by simp
  let ?P = "concat (map nd_rows (take rank locals))"
  let ?X = "nd_rows (locals ! rank)"
  let ?R = "concat (map nd_rows (drop (rank + 1) locals))"
  have take: "take (Suc rank) (map (Nunique locals) [0..<length locals])
               = take rank (map (Nunique locals) [0..<length locals]) @ [Nunique locals rank]"
    using r by (simp add: take_Suc_conv_app_nth)
  have P': "concat (map nd_rows (take (rank + 1) locals)) = ?P @ ?X"
    using r by (simp add: take_Suc_conv_app_nth)
  have R': "concat (map nd_rows (drop rank locals)) = ?X @ ?R"
    using r by (simp add: Cons_nth_drop_Suc[symmetric])
  have "sum_list (take rank (map (Nunique locals) [0..<length locals]))
              = int (card (set ?P - set (?X @ ?R)))"
    using Suc.IH r unfolding R' by linarith
  then have IH: "sum_list (take rank (map (Nunique locals) [0..<length locals]))
              = int (card (set ?P - (set ?X \<union> set ?R)))"
    unfolding set_append .
  have "sum_list (take (Suc rank) (map (Nunique locals) [0..<length locals]))
          = int (card (set ?P - (set ?X \<union> set ?R))) + int (card (set ?X - set ?R))"
    unfolding take sum_list_append IH Nunique_card[OF assms(1) r] by simp
  also have "\<dots> = int (card ((set ?P \<union> set ?X) - set ?R))"
    unfolding card_prefix_step[of ?P ?X ?R] by (rule of_nat_add[symmetric])
  also have "(set ?P \<union> set ?X) = set (?P @ ?X)" by (rule set_append[symmetric])
  finally have "sum_list (take (Suc rank) (map (Nunique locals) [0..<length locals]))
                  = int (card (set (?P @ ?X) - set ?R))" .
  then show ?case unfolding Suc_eq_plus1 P' .
qed

lemma unique_labels_local_rows:
  fixes locals :: "'a::linorder ndarray list"
  assumes "sorted (concat (map nd_rows locals))" "rank < length locals"
  shows "nd_rows (unique_labels_local legacy locals rank)
           = map (\<lambda>x. int (card {v \<in> set (concat (map nd_rows locals)). v < x}))
                 (nd_rows (locals ! rank))"
proof -
  let ?P = "concat (map nd_rows (take rank locals))"
  let ?X = "nd_rows (locals ! rank)"
  let ?R = "concat (map nd_rows (drop (rank + 1) locals))"
  have G: "concat (map nd_rows locals) = ?P @ ?X @ ?R" by (rule concat_rows_split[OF assms(2)])
  have R': "concat (map nd_rows (drop rank locals)) = ?X @ ?R"
    using assms(2) by (simp add: Cons_nth_drop_Suc[symmetric])
  have shift: "sum_list (take rank (map (Nunique locals) [0..<length locals]))
                 = int (card (set ?P - set (?X @ ?R)))"
    using shift_card[OF assms(1), of rank] assms(2) unfolding R' by simp
  have "int (card {v \<in> set ?X. v < x}) + int (card (set ?P - set (?X @ ?R)))
          = int (card {v \<in> set (?P @ ?X @ ?R). v < x})" if "x \<in> set ?X" for x
    using rank_split[of ?P ?X ?R x] assms(1) that unfolding G by simp
  then show ?thesis
    unfolding unique_labels_local_def Let_def shift G
    by (simp add: np_unique_inverse)
qed

lemma unique_labels_local_meta:
  "nd_dtype (unique_labels_local legacy locals rank) = Scalar ''int64''"
  "nd_trail (unique_labels_local legacy locals rank) = []"
  "length (nd_rows (unique_labels_local legacy locals rank)) = length (nd_rows (locals ! rank))"
  by (simp_all add: unique_labels_local_def Let_def np_unique_inverse_dtype_def np_unique_def)

subsection \<open>What a successful construction tells\<close>

lemma replicate_Raised_eq_map_Returned:
  assumes "replicate n (Raised e) = map Returned ds"
  shows "n = 0"
proof (rule ccontr)
  assume "n \<noteq> 0"
  then obtain m where "n = Suc m" by (cases n) auto
  with assms show False by (cases ds) auto
qed

lemma find_dtype_Inr_nonempty:
  assumes "find_dtype dtypes = Inr dt"
  shows "Some dt \<in> set dtypes"
proof -
  have set: "set (List.map_filter (\<lambda>d. d) dtypes) = {d. Some d \<in> set dtypes}"
    by (induction dtypes) (auto simp: map_filter_simps split: option.splits)
  from assms obtain ds where "remdups (List.map_filter (\<lambda>d. d) dtypes) = dt # ds"
    by (auto simp: find_dtype_def Let_def split: if_splits list.splits)
  then have "dt \<in> set (remdups (List.map_filter (\<lambda>d. d) dtypes))" by simp
  then show ?thesis using set by simp
qed

lemma DistributedArray_Returned:
  assumes "DistributedArray locals = map Returned selfs"
  shows "map da_local selfs = locals"
    and "locals \<noteq> [] \<Longrightarrow> \<exists>a \<in> set locals. nd_rows a \<noteq> []"
proof -
  let ?dtypes = "map (\<lambda>a. if length (nd_rows a) \<noteq> 0 then Some (nd_dtype a) else None) locals"
  let ?shapes = "map nd_shape locals"
  have both: "map da_local selfs = locals \<and> (locals \<noteq> [] \<longrightarrow> (\<exists>a \<in> set locals. nd_rows a \<noteq> []))"
  proof (cases "find_dtype ?dtypes")
    case (Inl e)
    then have "replicate (length locals) (Raised e) = map Returned selfs"
      using assms by (simp add: DistributedArray_def)
    then have "length locals = 0" by (rule replicate_Raised_eq_map_Returned)
    moreover have "length selfs = length locals"
      using assms Inl by (metis length_map length_replicate \<open>replicate (length locals) (Raised e) = map Returned selfs\<close>)
    ultimately show ?thesis by simp
  next
    case (Inr dt)
    then have "Some dt \<in> set ?dtypes" by (rule find_dtype_Inr_nonempty)
    then have ne: "\<exists>a \<in> set locals. nd_rows a \<noteq> []" by (auto split: if_splits)
    show ?thesis
    proof (cases "find_cshape ?shapes 0")
      case (Inl e)
      then have eq: "replicate (length locals) (Raised e) = map Returned selfs"
        using assms Inr by (simp add: DistributedArray_def)
      then have "length locals = 0" by (rule replicate_Raised_eq_map_Returned)
      with ne show ?thesis by simp
    next
      case (Inr cs)
      have "map Returned selfs = map (\<lambda>rank. Returned
                        \<lparr> da_local = locals ! rank, da_dtype = dt,
                          da_cshape = projr (find_cshape ?shapes rank),
                          da_coffset = sum_list (take rank (map hd ?shapes)) \<rparr>)
                      [0..<length locals]"
        using assms \<open>find_dtype ?dtypes = Inr dt\<close> Inr by (simp add: DistributedArray_def)
      also have "\<dots> = map Returned (map (\<lambda>rank.
                        \<lparr> da_local = locals ! rank, da_dtype = dt,
                          da_cshape = projr (find_cshape ?shapes rank),
                          da_coffset = sum_list (take rank (map hd ?shapes)) \<rparr>)
                      [0..<length locals])" by simp
      finally have "map Returned selfs = map Returned (map (\<lambda>rank.
                        \<lparr> da_local = locals ! rank, da_dtype = dt,
                          da_cshape = projr (find_cshape ?shapes rank),
                          da_coffset = sum_list (take rank (map hd ?shapes)) \<rparr>)
                      [0..<length locals])" .
      moreover have "inj (Returned :: 'a darray \<Rightarrow> 'a darray outcome)" by (simp add: inj_def)
      ultimately have "selfs = map (\<lambda>rank.
                        \<lparr> da_local = locals ! rank, da_dtype = dt,
                          da_cshape = projr (find_cshape ?shapes rank),
                          da_coffset = sum_list (take rank (map hd ?shapes)) \<rparr>)
                      [0..<length locals]"
        using inj_map_eq_map by blast
      then have "map da_local selfs = map (\<lambda>rank. locals ! rank) [0..<length locals]"
        by simp
      then show ?thesis using ne by (simp add: map_nth)
    qed
  qed
  show "map da_local selfs = locals" using both by simp
  show "locals \<noteq> [] \<Longrightarrow> \<exists>a \<in> set locals. nd_rows a \<noteq> []" using both by simp
qed

subsection \<open>Ranking the values of a list\<close>

lemma count_less_mono:
  fixes x y :: "'a::linorder"
  assumes "x \<le> y"
  shows "card {v \<in> set G. v < x} \<le> card {v \<in> set G. v < y}"
  using assms by (intro card_mono) auto

lemma count_less_strict:
  fixes x y :: "'a::linorder"
  assumes "x < y" "x \<in> set G"
  shows "card {v \<in> set G. v < x} < card {v \<in> set G. v < y}"
proof (rule psubset_card_mono)
  show "finite {v \<in> set G. v < y}" by simp
  show "{v \<in> set G. v < x} \<subset> {v \<in> set G. v < y}" using assms by auto
qed

lemma count_less_eq_iff:
  fixes x y :: "'a::linorder"
  assumes "x \<in> set G" "y \<in> set G"
  shows "(card {v \<in> set G. v < x} = card {v \<in> set G. v < y}) = (x = y)"
proof
  assume eq: "card {v \<in> set G. v < x} = card {v \<in> set G. v < y}"
  show "x = y"
  proof (rule ccontr)
    assume "x \<noteq> y"
    then consider "x < y" | "y < x" by (auto simp: neq_iff)
    then show False
      using count_less_strict[of x y G] count_less_strict[of y x G] assms eq by cases auto
  qed
qed simp

lemma count_less_range:
  fixes G :: "'a::linorder list"
  shows "(\<lambda>x. card {v \<in> set G. v < x}) ` set G = {0..<card (set G)}"
proof (rule card_subset_eq)
  show "finite {0..<card (set G)}" by simp
  show "(\<lambda>x. card {v \<in> set G. v < x}) ` set G \<subseteq> {0..<card (set G)}"
  proof
    fix n assume "n \<in> (\<lambda>x. card {v \<in> set G. v < x}) ` set G"
    then obtain x where x: "x \<in> set G" "n = card {v \<in> set G. v < x}" by auto
    have "{v \<in> set G. v < x} \<subset> set G" using x(1) by auto
    then have "n < card (set G)" unfolding x(2) by (intro psubset_card_mono) auto
    then show "n \<in> {0..<card (set G)}" by simp
  qed
  have "inj_on (\<lambda>x. card {v \<in> set G. v < x}) (set G)"
    by (rule inj_onI) (simp add: count_less_eq_iff)
  then show "card ((\<lambda>x. card {v \<in> set G. v < x}) ` set G) = card {0..<card (set G)}"
    by (simp add: card_image)
qed

subsection \<open>The labels of all ranks\<close>

lemma unique_labels_nonempty:
  fixes selfs :: "'a::linorder darray list"
  assumes "\<exists>d \<in> set selfs. nd_rows (da_local d) \<noteq> []"
  shows "\<exists>labels. unique_labels legacy selfs = map Returned labels \<and>
           map da_local labels
             = map (unique_labels_local legacy (map da_local selfs)) [0..<length selfs] \<and>
           list_all (\<lambda>d. da_dtype d = Scalar ''int64'') labels"
proof -
  let ?n = "length selfs"
  let ?locals = "map da_local selfs"
  let ?ls = "map (unique_labels_local legacy ?locals) [0..<?n]"
  from assms obtain d where d: "d \<in> set selfs" "nd_rows (da_local d) \<noteq> []" by blast
  then obtain r where r: "r < ?n" "selfs ! r = d" by (auto simp: in_set_conv_nth)
  have "unique_labels_local legacy ?locals r \<in> set ?ls" using r(1) by simp
  moreover have "nd_rows (unique_labels_local legacy ?locals r) \<noteq> []"
    using unique_labels_local_meta(3)[of legacy ?locals r] r d(2) by auto
  ultimately have ne: "\<exists>l \<in> set ?ls. nd_rows l \<noteq> []" by blast
  let ?lens = "map (\<lambda>a. length (nd_rows a)) ?ls"
  let ?d = "\<lambda>rank. \<lparr> da_local = ?ls ! rank, da_dtype = Scalar ''int64'',
                      da_cshape = sum_list ?lens # [],
                      da_coffset = sum_list (take rank ?lens) \<rparr>"
  have "DistributedArray ?ls = map (\<lambda>rank. Returned (?d rank)) [0..<length ?ls]"
    using ne by (intro DistributedArray_success) (auto simp: unique_labels_local_meta)
  then have "unique_labels legacy selfs = map (\<lambda>rank. Returned (?d rank)) [0..<?n]"
    by (simp add: unique_labels_def)
  then have ret: "unique_labels legacy selfs = map Returned (map ?d [0..<?n])"
    by (simp add: comp_def)
  have "map da_local (map ?d [0..<?n]) = map (\<lambda>rank. ?ls ! rank) [0..<?n]" by simp
  also have "\<dots> = map (\<lambda>rank. ?ls ! rank) [0..<length ?ls]" by simp
  also have "\<dots> = ?ls" by (rule map_nth)
  finally have locs: "map da_local (map ?d [0..<?n]) = ?ls" .
  have dt: "list_all (\<lambda>d. da_dtype d = Scalar ''int64'') (map ?d [0..<?n])"
    by (simp add: list_all_iff)
  show ?thesis
    by (intro exI[of _ "map ?d [0..<?n]"] conjI) (fact ret locs dt)+
qed

lemma unique_labels_returns:
  fixes locals :: "'a::linorder ndarray list"
  assumes "DistributedArray locals = map Returned selfs"
  shows "\<exists>labels. unique_labels legacy selfs = map Returned labels \<and>
           map da_local labels = map (unique_labels_local legacy locals) [0..<length locals] \<and>
           list_all (\<lambda>d. da_dtype d = Scalar ''int64'') labels"
proof (cases "locals = []")
  case True
  then have "selfs = []" using DistributedArray_Returned(1)[OF assms] by simp
  then have "unique_labels legacy selfs = map Returned []"
    by (simp add: unique_labels_def DistributedArray_def find_dtype_def map_filter_simps)
  then show ?thesis using True by (intro exI[of _ "[]"]) simp
next
  case False
  have loc: "map da_local selfs = locals" by (rule DistributedArray_Returned(1)[OF assms])
  then have len: "length selfs = length locals" by (metis length_map)
  from DistributedArray_Returned(2)[OF assms False]
  obtain a where a: "a \<in> set locals" "nd_rows a \<noteq> []" by blast
  then have "a \<in> da_local ` set selfs" using loc by (metis set_map)
  with a(2) have "\<exists>d \<in> set selfs. nd_rows (da_local d) \<noteq> []" by auto
  from unique_labels_nonempty[OF this, of legacy] show ?thesis unfolding loc len .
qed

lemma gathered_labels:
  fixes locals :: "'a::linorder ndarray list"
  assumes "sorted (concat (map nd_rows locals))"
    and "map da_local labels = map (unique_labels_local legacy locals) [0..<length locals]"
  shows "gathered labels
           = map (\<lambda>x. int (card {v \<in> set (concat (map nd_rows locals)). v < x}))
                 (concat (map nd_rows locals))"
proof -
  define f where "f = (\<lambda>x. int (card {v \<in> set (concat (map nd_rows locals)). v < x}))"
  have rows: "nd_rows (unique_labels_local legacy locals rank) = map f (nd_rows (locals ! rank))"
    if "rank < length locals" for rank
    unfolding f_def using that by (rule unique_labels_local_rows[OF assms(1)])
  have "gathered labels = concat (map nd_rows (map da_local labels))"
    by (simp add: gathered_def comp_def)
  also have "\<dots> = concat (map (\<lambda>rank. nd_rows (unique_labels_local legacy locals rank))
                            [0..<length locals])"
    unfolding assms(2) by (simp add: comp_def)
  also have "map (\<lambda>rank. nd_rows (unique_labels_local legacy locals rank)) [0..<length locals]
               = map (\<lambda>rank. map f (nd_rows (locals ! rank))) [0..<length locals]"
    by (rule map_cong[OF refl]) (simp add: rows)
  also have "\<dots> = map (\<lambda>a. map f (nd_rows a)) (map (\<lambda>rank. locals ! rank) [0..<length locals])"
    by (simp add: comp_def)
  also have "\<dots> = map (\<lambda>a. map f (nd_rows a)) locals"
    by (simp only: map_nth)
  also have "concat \<dots> = map f (concat (map nd_rows locals))"
    by (simp add: map_concat comp_def)
  finally show ?thesis unfolding f_def .
qed

subsection \<open>Correctness of the labels\<close>

text \<open>
  Claim C4. Let a distributed array of scalars be constructed from one-dimensional local
  arrays whose concatenation in rank order is sorted. Then \<open>unique_labels\<close> returns on
  every rank a label array as long as the local array; the labels, read in rank order and
  then local order, are exactly the numbers \<open>0 .. K-1\<close> for \<open>K\<close> the number of distinct
  global values, they are non-decreasing, and two positions carry the same label if and
  only if they carry the same value, wherever the rank boundaries fall.
\<close>

theorem unique_labels_correct:
  fixes locals :: "'a::linorder ndarray list"
  assumes "DistributedArray locals = map Returned selfs"
    and "list_all (\<lambda>a. nd_trail a = []) locals"
    and "sorted (gathered selfs)"
  shows "\<exists>labels. unique_labels legacy selfs = map Returned labels \<and>
           map local_length labels = map local_length selfs \<and>
           set (gathered labels) = int ` {0..<card (set (gathered selfs))} \<and>
           sorted (gathered labels) \<and>
           (\<forall>i < length (gathered selfs). \<forall>j < length (gathered selfs).
              (gathered labels ! i = gathered labels ! j) = (gathered selfs ! i = gathered selfs ! j))"
proof -
  define G where "G = concat (map nd_rows locals)"
  define f where "f = (\<lambda>x. card {v \<in> set G. v < x})"
  have loc: "map da_local selfs = locals" by (rule DistributedArray_Returned(1)[OF assms(1)])
  have G: "gathered selfs = G"
    unfolding G_def loc[symmetric] by (simp add: gathered_def comp_def)
  have sorted: "sorted (concat (map nd_rows locals))" using assms(3) G G_def by simp
  from unique_labels_returns[OF assms(1), of legacy]
  obtain labels where ret: "unique_labels legacy selfs = map Returned labels"
    and locs: "map da_local labels = map (unique_labels_local legacy locals) [0..<length locals]"
    by blast
  have labs: "gathered labels = map (\<lambda>x. int (f x)) G"
    unfolding f_def G_def by (rule gathered_labels[OF sorted locs])
  have "map local_length labels = map (\<lambda>a. length (nd_rows a)) (map da_local labels)"
    by (simp add: local_length_def comp_def)
  also have "\<dots> = map (\<lambda>rank. length (nd_rows (locals ! rank))) [0..<length locals]"
    unfolding locs by (simp add: unique_labels_local_meta comp_def)
  also have "\<dots> = map (\<lambda>a. length (nd_rows a)) (map (\<lambda>rank. locals ! rank) [0..<length locals])"
    by (simp add: comp_def)
  also have "\<dots> = map (\<lambda>a. length (nd_rows a)) (map da_local selfs)"
    unfolding loc by (simp only: map_nth)
  also have "\<dots> = map local_length selfs" by (simp add: local_length_def comp_def)
  finally have lens: "map local_length labels = map local_length selfs" .
  have "set (gathered labels) = int ` (f ` set G)" unfolding labs by (simp add: image_image)
  also have "f ` set G = {0..<card (set G)}" unfolding f_def by (rule count_less_range)
  finally have range: "set (gathered labels) = int ` {0..<card (set (gathered selfs))}"
    unfolding G .
  have "sorted G" using assms(3) G by simp
  then have "sorted (map (\<lambda>x. int (f x)) G)"
    unfolding sorted_iff_nth_mono
    by (auto simp: f_def intro!: count_less_mono)
  then have mono: "sorted (gathered labels)" unfolding labs .
  have "(map (\<lambda>x. int (f x)) G ! i = map (\<lambda>x. int (f x)) G ! j) = (G ! i = G ! j)"
    if "i < length G" "j < length G" for i j
    using that count_less_eq_iff[of "G ! i" G "G ! j"] by (simp add: f_def)
  then have iff: "\<forall>i < length (gathered selfs). \<forall>j < length (gathered selfs).
              (gathered labels ! i = gathered labels ! j) = (gathered selfs ! i = gathered selfs ! j)"
    unfolding labs G by blast
  show ?thesis
    by (intro exI[of _ labels] conjI) (fact ret lens range mono iff)+
qed

theorem unique_labels_correct_witness:
  "DistributedArray
     [\<lparr> nd_dtype = Scalar ''int64'', nd_trail = [], nd_rows = [1, 5 :: int] \<rparr>,
      \<lparr> nd_dtype = Scalar ''int64'', nd_trail = [], nd_rows = [] \<rparr>,
      \<lparr> nd_dtype = Scalar ''int64'', nd_trail = [], nd_rows = [5, 7] \<rparr>]
   = map Returned
     [\<lparr> da_local = \<lparr> nd_dtype = Scalar ''int64'', nd_trail = [], nd_rows = [1, 5] \<rparr>,
        da_dtype = Scalar ''int64'', da_cshape = [4], da_coffset = 0 \<rparr>,
      \<lparr> da_local = \<lparr> nd_dtype = Scalar ''int64'', nd_trail = [], nd_rows = [] \<rparr>,
        da_dtype = Scalar ''int64'', da_cshape = [4], da_coffset = 2 \<rparr>,
      \<lparr> da_local = \<lparr> nd_dtype = Scalar ''int64'', nd_trail = [], nd_rows = [5, 7] \<rparr>,
        da_dtype = Scalar ''int64'', da_cshape = [4], da_coffset = 2 \<rparr>]
   \<and> (\<exists>labels.
        unique_labels True
          [\<lparr> da_local = \<lparr> nd_dtype = Scalar ''int64'', nd_trail = [], nd_rows = [1, 5 :: int] \<rparr>,
             da_dtype = Scalar ''int64'', da_cshape = [4], da_coffset = 0 \<rparr>,
           \<lparr> da_local = \<lparr> nd_dtype = Scalar ''int64'', nd_trail = [], nd_rows = [] \<rparr>,
             da_dtype = Scalar ''int64'', da_cshape = [4], da_coffset = 2 \<rparr>,
           \<lparr> da_local = \<lparr> nd_dtype = Scalar ''int64'', nd_trail = [], nd_rows = [5, 7] \<rparr>,
             da_dtype = Scalar ''int64'', da_cshape = [4], da_coffset = 2 \<rparr>]
          = map Returned labels \<and>
        set (gathered labels) = int ` {0..<3} \<and> sorted (gathered labels))"
proof -
  let ?locals = "[\<lparr> nd_dtype = Scalar ''int64'', nd_trail = [], nd_rows = [1, 5 :: int] \<rparr>,
      \<lparr> nd_dtype = Scalar ''int64'', nd_trail = [], nd_rows = [] \<rparr>,
      \<lparr> nd_dtype = Scalar ''int64'', nd_trail = [], nd_rows = [5, 7] \<rparr>]"
  let ?selfs = "[\<lparr> da_local = \<lparr> nd_dtype = Scalar ''int64'', nd_trail = [], nd_rows = [1, 5 :: int] \<rparr>,
        da_dtype = Scalar ''int64'', da_cshape = [4], da_coffset = 0 \<rparr>,
      \<lparr> da_local = \<lparr> nd_dtype = Scalar ''int64'', nd_trail = [], nd_rows = [] \<rparr>,
        da_dtype = Scalar ''int64'', da_cshape = [4], da_coffset = 2 \<rparr>,
      \<lparr> da_local = \<lparr> nd_dtype = Scalar ''int64'', nd_trail = [], nd_rows = [5, 7] \<rparr>,
        da_dtype = Scalar ''int64'', da_cshape = [4], da_coffset = 2 \<rparr>]"
  have h1: "DistributedArray ?locals = map Returned ?selfs"
    by (simp add: DistributedArray_def find_dtype_def find_cshape_def nd_shape_def
        map_filter_simps upt_conv_Cons)
  have h2: "list_all (\<lambda>a. nd_trail a = []) ?locals" by simp
  have h3: "sorted (gathered ?selfs)" by (simp add: gathered_def)
  have K: "card (set (gathered ?selfs)) = 3" by (simp add: gathered_def)
  from unique_labels_correct[OF h1 h2 h3, of True, unfolded K]
  obtain labels where "unique_labels True ?selfs = map Returned labels"
    "set (gathered labels) = int ` {0..<3}" "sorted (gathered labels)"
    by blast
  with h1 show ?thesis by blast
qed

subsection \<open>An empty rank\<close>

lemma Nunique_rows:
  fixes locals locals' :: "'a::linorder ndarray list"
  assumes "nd_rows (locals ! r) = nd_rows (locals' ! r')"
    and "concat (map nd_rows (drop (r + 1) locals)) = concat (map nd_rows (drop (r' + 1) locals'))"
  shows "Nunique locals r = Nunique locals' r'"
  using assms by (simp add: Nunique_def Let_def topology_next_rows)

lemma Nunique_empty:
  assumes "nd_rows (locals ! rank) = []"
  shows "Nunique locals rank = 0"
  using assms by (simp add: Nunique_def)

lemma Nunique_insert_empty:
  fixes A B :: "'a::linorder ndarray list"
  assumes "nd_rows e = []"
  shows "map (Nunique (A @ e # B)) [0..<length (A @ e # B)]
           = map (Nunique (A @ B)) [0..<length A] @ 0 # map (Nunique (A @ B)) [length A..<length (A @ B)]"
proof -
  have low: "Nunique (A @ e # B) r = Nunique (A @ B) r" if "r < length A" for r
    using that assms by (intro Nunique_rows) (simp_all add: nth_append)
  have mid: "Nunique (A @ e # B) (length A) = 0"
    using assms by (intro Nunique_empty) simp
  have high: "Nunique (A @ e # B) (Suc r) = Nunique (A @ B) r" if "length A \<le> r" for r
    using that by (intro Nunique_rows) (simp_all add: nth_append Suc_diff_le)
  have split: "[0..<length (A @ e # B)] = [0..<length A] @ length A # map Suc [length A..<length (A @ B)]"
  proof -
    have "[0..<length (A @ e # B)] = [0..<length A + Suc (length B)]" by simp
    also have "\<dots> = [0..<length A] @ [length A..<length A + Suc (length B)]"
      by (rule upt_add_eq_append) simp
    also have "[length A..<length A + Suc (length B)]
                 = length A # [Suc (length A)..<length A + Suc (length B)]"
      by (rule upt_conv_Cons) simp
    also have "[Suc (length A)..<length A + Suc (length B)] = map Suc [length A..<length (A @ B)]"
      by (simp only: map_Suc_upt length_append add_Suc_right)
    finally show ?thesis .
  qed
  show ?thesis
    unfolding split using low mid high by (simp add: comp_def)
qed

lemma shift_insert_empty:
  fixes A B :: "'a::linorder ndarray list"
  assumes "nd_rows e = []"
  shows "r \<le> length A \<Longrightarrow>
           sum_list (take r (map (Nunique (A @ e # B)) [0..<length (A @ e # B)]))
             = sum_list (take r (map (Nunique (A @ B)) [0..<length (A @ B)]))"
    and "length A \<le> r \<Longrightarrow>
           sum_list (take (Suc r) (map (Nunique (A @ e # B)) [0..<length (A @ e # B)]))
             = sum_list (take r (map (Nunique (A @ B)) [0..<length (A @ B)]))"
proof -
  let ?NA = "map (Nunique (A @ B)) [0..<length A]"
  let ?NB = "map (Nunique (A @ B)) [length A..<length (A @ B)]"
  have old: "map (Nunique (A @ B)) [0..<length (A @ B)] = ?NA @ ?NB"
    by (simp flip: map_append add: upt_add_eq_append[of 0 "length A" "length B", simplified])
  have new: "map (Nunique (A @ e # B)) [0..<length (A @ e # B)] = ?NA @ 0 # ?NB"
    by (rule Nunique_insert_empty[OF assms])
  show "r \<le> length A \<Longrightarrow>
           sum_list (take r (map (Nunique (A @ e # B)) [0..<length (A @ e # B)]))
             = sum_list (take r (map (Nunique (A @ B)) [0..<length (A @ B)]))"
    unfolding old new by simp
  show "length A \<le> r \<Longrightarrow>
           sum_list (take (Suc r) (map (Nunique (A @ e # B)) [0..<length (A @ e # B)]))
             = sum_list (take r (map (Nunique (A @ B)) [0..<length (A @ B)]))"
    unfolding old new by (simp add: Suc_diff_le)
qed

lemma unique_labels_local_insert_empty:
  fixes A B :: "'a::linorder ndarray list"
  assumes "nd_rows e = []"
  shows "r < length A \<Longrightarrow>
           unique_labels_local legacy (A @ e # B) r = unique_labels_local legacy (A @ B) r"
    and "length A \<le> r \<Longrightarrow>
           unique_labels_local legacy (A @ e # B) (Suc r) = unique_labels_local legacy (A @ B) r"
    and "nd_rows (unique_labels_local legacy (A @ e # B) (length A)) = []"
proof -
  show "r < length A \<Longrightarrow>
           unique_labels_local legacy (A @ e # B) r = unique_labels_local legacy (A @ B) r"
    using shift_insert_empty(1)[OF assms, of r A B]
    by (simp add: unique_labels_local_def Let_def nth_append)
  show "length A \<le> r \<Longrightarrow>
           unique_labels_local legacy (A @ e # B) (Suc r) = unique_labels_local legacy (A @ B) r"
    using shift_insert_empty(2)[OF assms, of A r B]
    by (simp add: unique_labels_local_def Let_def nth_append Suc_diff_le)
  show "nd_rows (unique_labels_local legacy (A @ e # B) (length A)) = []"
    using assms by (simp add: unique_labels_local_def Let_def np_unique_def)
qed

text \<open>
  Claim C10. A rank whose local array is empty gets a label array of length 0 whose
  element type is \<open>int64\<close>, whether or not \<open>numpy.unique\<close> returned booleans for the
  empty input (\<open>legacy\<close>); its adjusted count \<open>Nunique\<close> is 0; and the label arrays of all
  other ranks are the ones \<open>unique_labels\<close> returns when the empty rank is taken out of the
  communicator.
\<close>

theorem unique_labels_empty_rank:
  fixes SA SB :: "'a::linorder darray list"
  assumes "nd_rows (da_local se) = []"
    and "\<exists>d \<in> set (SA @ SB). nd_rows (da_local d) \<noteq> []"
  shows "\<exists>labels labels'.
           unique_labels legacy (SA @ se # SB) = map Returned labels \<and>
           unique_labels legacy (SA @ SB) = map Returned labels' \<and>
           nd_rows (da_local (labels ! length SA)) = [] \<and>
           nd_dtype (da_local (labels ! length SA)) = Scalar ''int64'' \<and>
           Nunique (map da_local (SA @ se # SB)) (length SA) = 0 \<and>
           map da_local labels'
             = map da_local (take (length SA) labels @ drop (Suc (length SA)) labels)"
proof -
  define A B e where "A = map da_local SA" and "B = map da_local SB" and "e = da_local se"
  have e: "nd_rows e = []" using assms(1) by (simp add: e_def)
  have lenA: "length A = length SA" and lenB: "length B = length SB" by (simp_all add: A_def B_def)
  have full: "map da_local (SA @ se # SB) = A @ e # B" and part: "map da_local (SA @ SB) = A @ B"
    by (simp_all add: A_def B_def e_def)
  have ne: "\<exists>d \<in> set (SA @ se # SB). nd_rows (da_local d) \<noteq> []" using assms(2) by auto
  from unique_labels_nonempty[OF ne, of legacy]
  obtain labels where ret: "unique_labels legacy (SA @ se # SB) = map Returned labels"
    and locs: "map da_local labels
                 = map (unique_labels_local legacy (A @ e # B)) [0..<length (A @ e # B)]"
    unfolding full by (auto simp: lenA lenB)
  from unique_labels_nonempty[OF assms(2), of legacy]
  obtain labels' where ret': "unique_labels legacy (SA @ SB) = map Returned labels'"
    and locs': "map da_local labels'
                  = map (unique_labels_local legacy (A @ B)) [0..<length (A @ B)]"
    unfolding part by (auto simp: lenA lenB)
  have split: "[0..<length (A @ e # B)]
                 = [0..<length A] @ length A # map Suc [length A..<length (A @ B)]"
  proof -
    have "[0..<length (A @ e # B)] = [0..<length A + Suc (length B)]" by simp
    also have "\<dots> = [0..<length A] @ [length A..<length A + Suc (length B)]"
      by (rule upt_add_eq_append) simp
    also have "[length A..<length A + Suc (length B)]
                 = length A # [Suc (length A)..<length A + Suc (length B)]"
      by (rule upt_conv_Cons) simp
    also have "[Suc (length A)..<length A + Suc (length B)] = map Suc [length A..<length (A @ B)]"
      by (simp only: map_Suc_upt length_append add_Suc_right)
    finally show ?thesis .
  qed
  have split': "[0..<length (A @ B)] = [0..<length A] @ [length A..<length (A @ B)]"
    by (simp add: upt_add_eq_append[of 0 "length A" "length B", simplified])
  let ?u = "unique_labels_local legacy (A @ e # B)" and ?u' = "unique_labels_local legacy (A @ B)"
  have low: "map ?u [0..<length A] = map ?u' [0..<length A]"
    by (rule map_cong[OF refl]) (simp add: unique_labels_local_insert_empty(1)[OF e])
  have high: "map ?u (map Suc [length A..<length (A @ B)]) = map ?u' [length A..<length (A @ B)]"
    unfolding map_map comp_def
    by (rule map_cong[OF refl]) (simp add: unique_labels_local_insert_empty(2)[OF e])
  have all: "map da_local labels
               = map ?u' [0..<length A] @ ?u (length A) # map ?u' [length A..<length (A @ B)]"
    unfolding locs split map_append list.map low high ..
  have len: "length (map ?u' [0..<length A]) = length SA" by (simp add: lenA)
  have mid: "da_local (labels ! length SA) = ?u (length A)"
  proof -
    have "length SA < length labels" using arg_cong[OF all, of length] by (simp add: lenA)
    then have "da_local (labels ! length SA) = map da_local labels ! length SA" by simp
    also have "\<dots> = ?u (length A)" unfolding all using len by (simp add: nth_append)
    finally show ?thesis .
  qed
  have rows: "nd_rows (da_local (labels ! length SA)) = []"
    unfolding mid by (rule unique_labels_local_insert_empty(3)[OF e])
  have dt: "nd_dtype (da_local (labels ! length SA)) = Scalar ''int64''"
    unfolding mid by (rule unique_labels_local_meta(1))
  have nu: "Nunique (map da_local (SA @ se # SB)) (length SA) = 0"
    unfolding full lenA[symmetric] using e by (intro Nunique_empty) simp
  have "map da_local (take (length SA) labels @ drop (Suc (length SA)) labels)
          = take (length SA) (map da_local labels) @ drop (Suc (length SA)) (map da_local labels)"
    by (simp add: take_map drop_map)
  also have "\<dots> = map ?u' [0..<length A] @ map ?u' [length A..<length (A @ B)]"
    unfolding all using len by simp
  also have "\<dots> = map da_local labels'"
    unfolding locs' split' by simp
  finally have others: "map da_local labels'
             = map da_local (take (length SA) labels @ drop (Suc (length SA)) labels)" by simp
  show ?thesis
    by (intro exI[of _ labels] exI[of _ labels'] conjI) (fact ret ret' rows dt nu others)+
qed

theorem unique_labels_empty_rank_witness:
  "\<exists>labels labels'.
     unique_labels False
       [\<lparr> da_local = \<lparr> nd_dtype = Scalar ''int64'', nd_trail = [], nd_rows = [1, 5 :: int] \<rparr>,
          da_dtype = Scalar ''int64'', da_cshape = [4], da_coffset = 0 \<rparr>,
        \<lparr> da_local = \<lparr> nd_dtype = Scalar ''int64'', nd_trail = [], nd_rows = [] \<rparr>,
          da_dtype = Scalar ''int64'', da_cshape = [4], da_coffset = 2 \<rparr>,
        \<lparr> da_local = \<lparr> nd_dtype = Scalar ''int64'', nd_trail = [], nd_rows = [5, 7] \<rparr>,
          da_dtype = Scalar ''int64'', da_cshape = [4], da_coffset = 2 \<rparr>]
       = map Returned labels \<and>
     unique_labels False
       [\<lparr> da_local = \<lparr> nd_dtype = Scalar ''int64'', nd_trail = [], nd_rows = [1, 5 :: int] \<rparr>,
          da_dtype = Scalar ''int64'', da_cshape = [4], da_coffset = 0 \<rparr>,
        \<lparr> da_local = \<lparr> nd_dtype = Scalar ''int64'', nd_trail = [], nd_rows = [5, 7] \<rparr>,
          da_dtype = Scalar ''int64'', da_cshape = [4], da_coffset = 2 \<rparr>]
       = map Returned labels' \<and>
     nd_rows (da_local (labels ! 1)) = [] \<and>
     nd_dtype (da_local (labels ! 1)) = Scalar ''int64'' \<and>
     map da_local labels' = map da_local (take 1 labels @ drop 2 labels)"
proof -
  let ?a = "\<lparr> da_local = \<lparr> nd_dtype = Scalar ''int64'', nd_trail = [], nd_rows = [1, 5 :: int] \<rparr>,
          da_dtype = Scalar ''int64'', da_cshape = [4], da_coffset = 0 \<rparr>"
  let ?e = "\<lparr> da_local = \<lparr> nd_dtype = Scalar ''int64'', nd_trail = [], nd_rows = [] :: int list \<rparr>,
          da_dtype = Scalar ''int64'', da_cshape = [4], da_coffset = 2 \<rparr>"
  let ?b = "\<lparr> da_local = \<lparr> nd_dtype = Scalar ''int64'', nd_trail = [], nd_rows = [5, 7 :: int] \<rparr>,
          da_dtype = Scalar ''int64'', da_cshape = [4], da_coffset = 2 \<rparr>"
  have h1: "nd_rows (da_local ?e) = []" by simp
  have h2: "\<exists>d \<in> set ([?a] @ [?b]). nd_rows (da_local d) \<noteq> []" by simp
  from unique_labels_empty_rank[OF h1 h2, of False]
  obtain labels labels' where
    r1: "unique_labels False ([?a] @ ?e # [?b]) = map Returned labels" and
    r2: "unique_labels False ([?a] @ [?b]) = map Returned labels'" and
    r3: "nd_rows (da_local (labels ! length [?a])) = []" and
    r4: "nd_dtype (da_local (labels ! length [?a])) = Scalar ''int64''" and
    r5: "map da_local labels'
           = map da_local (take (length [?a]) labels @ drop (Suc (length [?a])) labels)"
    by blast
  have c1: "unique_labels False [?a, ?e, ?b] = map Returned labels" using r1 by simp
  have c2: "unique_labels False [?a, ?b] = map Returned labels'" using r2 by simp
  have c3: "nd_rows (da_local (labels ! 1)) = []" using r3 by simp
  have c4: "nd_dtype (da_local (labels ! 1)) = Scalar ''int64''" using r4 by simp
  have c5: "map da_local labels' = map da_local (take 1 labels @ drop 2 labels)"
    using r5 by (simp add: numeral_2_eq_2)
  show ?thesis
    by (intro exI[of _ labels] exI[of _ labels'] conjI) (fact c1 c2 c3 c4 c5)+
qed

section \<open>The histogram of a run split across two ranks\<close>

text \<open>
  Claim C5. Rank 0 holds \<open>[0, 0, 1]\<close> and rank 1 holds \<open>[1, 2]\<close>. The local histograms
  start at the values 0 and 1. With \<open>shared_edges=True\<close> the ranks return \<open>[2, 2]\<close> and
  \<open>[2, 1]\<close>: the bin of the shared value 1 holds the merged count 2 on both ranks, so the
  bins with their values, each distinct one taken once, are those of the global histogram
  \<open>[2, 2, 1]\<close>. With \<open>shared_edges=False\<close> rank 1, whose leading bin was merged from rank
  0, drops it: the ranks return \<open>[2, 2]\<close> and \<open>[1]\<close>, so the bin of the value 1 stays on
  rank 0 only.
\<close>

theorem bincount_split_run:
  "DistributedArray
     [\<lparr> nd_dtype = Scalar ''int64'', nd_trail = [], nd_rows = [0, 0, 1 :: int] \<rparr>,
      \<lparr> nd_dtype = Scalar ''int64'', nd_trail = [], nd_rows = [1, 2] \<rparr>]
   = [Returned \<lparr> da_local = \<lparr> nd_dtype = Scalar ''int64'', nd_trail = [], nd_rows = [0, 0, 1] \<rparr>,
                 da_dtype = Scalar ''int64'', da_cshape = [5], da_coffset = 0 \<rparr>,
      Returned \<lparr> da_local = \<lparr> nd_dtype = Scalar ''int64'', nd_trail = [], nd_rows = [1, 2] \<rparr>,
                 da_dtype = Scalar ''int64'', da_cshape = [5], da_coffset = 3 \<rparr>]
   \<and> bincount False True
     [\<lparr> da_local = \<lparr> nd_dtype = Scalar ''int64'', nd_trail = [], nd_rows = [0, 0, 1] \<rparr>,
        da_dtype = Scalar ''int64'', da_cshape = [5], da_coffset = 0 \<rparr>,
      \<lparr> da_local = \<lparr> nd_dtype = Scalar ''int64'', nd_trail = [], nd_rows = [1, 2] \<rparr>,
        da_dtype = Scalar ''int64'', da_cshape = [5], da_coffset = 3 \<rparr>]
   = [Returned (Inr \<lparr> da_local = \<lparr> nd_dtype = Scalar ''int64'', nd_trail = [], nd_rows = [2, 2] \<rparr>,
                     da_dtype = Scalar ''int64'', da_cshape = [4], da_coffset = 0 \<rparr>),
      Returned (Inr \<lparr> da_local = \<lparr> nd_dtype = Scalar ''int64'', nd_trail = [], nd_rows = [2, 1] \<rparr>,
                     da_dtype = Scalar ''int64'', da_cshape = [4], da_coffset = 2 \<rparr>)]
   \<and> bincount_offset
       [\<lparr> nd_dtype = Scalar ''int64'', nd_trail = [], nd_rows = [0, 0, 1] \<rparr>,
        \<lparr> nd_dtype = Scalar ''int64'', nd_trail = [], nd_rows = [1, 2] \<rparr>] 0 = 0
   \<and> bincount_offset
       [\<lparr> nd_dtype = Scalar ''int64'', nd_trail = [], nd_rows = [0, 0, 1] \<rparr>,
        \<lparr> nd_dtype = Scalar ''int64'', nd_trail = [], nd_rows = [1, 2] \<rparr>] 1 = 1
   \<and> remdups (labelled_bins 0 [2, 2] @ labelled_bins 1 [2, 1]) = labelled_bins 0 [2, 2, 1]
   \<and> np_bincount ([0, 0, 1] @ [1, 2]) = Inr [2, 2, 1]
   \<and> bincount False False
     [\<lparr> da_local = \<lparr> nd_dtype = Scalar ''int64'', nd_trail = [], nd_rows = [0, 0, 1] \<rparr>,
        da_dtype = Scalar ''int64'', da_cshape = [5], da_coffset = 0 \<rparr>,
      \<lparr> da_local = \<lparr> nd_dtype = Scalar ''int64'', nd_trail = [], nd_rows = [1, 2] \<rparr>,
        da_dtype = Scalar ''int64'', da_cshape = [5], da_coffset = 3 \<rparr>]
   = [Returned (Inr \<lparr> da_local = \<lparr> nd_dtype = Scalar ''int64'', nd_trail = [], nd_rows = [2, 2] \<rparr>,
                     da_dtype = Scalar ''int64'', da_cshape = [3], da_coffset = 0 \<rparr>),
      Returned (Inr \<lparr> da_local = \<lparr> nd_dtype = Scalar ''int64'', nd_trail = [], nd_rows = [1] \<rparr>,
                     da_dtype = Scalar ''int64'', da_cshape = [3], da_coffset = 2 \<rparr>)]"
  by code_simp

section \<open>Padding a rank with the tail of its predecessors\<close>

subsection \<open>Prefix lengths\<close>

lemma sum_int_lengths:
  "sum_list (map (\<lambda>a. int (length a)) xs) = int (length (concat xs))"
  by (induction xs) auto

lemma sum_take_lengths:
  "sum_list (take i (map (\<lambda>a. int (length a)) arrays)) = int (length (concat (take i arrays)))"
  unfolding take_map by (rule sum_int_lengths)

lemma prefix_length_Suc:
  assumes "i < length arrays"
  shows "length (concat (take (Suc i) arrays)) = length (concat (take i arrays)) + length (arrays ! i)"
  using assms by (simp add: take_Suc_conv_app_nth)

lemma prefix_length_mono:
  assumes "i \<le> j"
  shows "length (concat (take i arrays)) \<le> length (concat (take j arrays))"
proof -
  have "take j arrays = take i (take j arrays) @ drop i (take j arrays)"
    by (rule append_take_drop_id[symmetric])
  moreover have "take i (take j arrays) = take i arrays" using assms by (simp add: min_absorb1)
  ultimately have "concat (take j arrays) = concat (take i arrays) @ concat (drop i (take j arrays))"
    by (metis concat_append)
  then show ?thesis by simp
qed

subsection \<open>Dropping from a concatenation\<close>

lemma drop_concat_pieces:
  "drop k (concat xs)
     = concat (map (\<lambda>i. drop (k - length (concat (take i xs))) (xs ! i)) [0..<length xs])"
proof (induction xs rule: rev_induct)
  case Nil
  then show ?case by simp
next
  case (snoc x xs)
  let ?F = "\<lambda>ys i. drop (k - length (concat (take i ys))) (ys ! i)"
  have old: "map (?F (xs @ [x])) [0..<length xs] = map (?F xs) [0..<length xs]"
    by (rule map_cong[OF refl]) (simp add: nth_append)
  have last: "?F (xs @ [x]) (length xs) = drop (k - length (concat xs)) x" by simp
  have "concat (map (?F (xs @ [x])) [0..<length (xs @ [x])])
          = concat (map (?F (xs @ [x])) ([0..<length xs] @ [length xs]))" by simp
  also have "\<dots> = concat (map (?F (xs @ [x])) [0..<length xs]) @ ?F (xs @ [x]) (length xs)"
    by (simp only: map_append concat_append list.map concat.simps append_Nil2)
  also have "\<dots> = drop k (concat xs) @ drop (k - length (concat xs)) x"
    unfolding old last snoc.IH[symmetric] ..
  also have "\<dots> = drop k (concat (xs @ [x]))" by simp
  finally show ?case by simp
qed

subsection \<open>The transfer plan of one rank\<close>

lemma FrontPad_torecv_nth:
  assumes "rank < length arrays" "i < length arrays"
  shows "FrontPad_torecv (map (\<lambda>a. int (length a)) arrays) front rank ! i
           = clamp_torecv front (int (length (arrays ! i)))
               (int (length (concat (take i arrays))) + int (length (arrays ! i))
                  - (int (length (concat (take rank arrays))) - front))"
  using assms
  by (simp add: FrontPad_torecv_def Let_def sum_take_lengths del: upt_Suc)

lemma clamp_torecv_negative:
  assumes "front < 0" "0 \<le> Ni"
  shows "clamp_torecv front Ni t = 0"
  using assms by (simp add: clamp_torecv_def Let_def)

lemma clamp_torecv_lower:
  assumes "0 \<le> front" and "Oi + Ni \<le> Off"
  shows "clamp_torecv front (int Ni) (int Oi + int Ni - (int Off - front))
           = int (Ni - (nat (int Off - front) - Oi))"
  using assms by (auto simp: clamp_torecv_def Let_def)

lemma clamp_torecv_upper:
  assumes "0 \<le> front" and "Off \<le> Oi"
  shows "clamp_torecv front (int Ni) (int Oi + int Ni - (int Off - front)) = 0"
  using assms by (auto simp: clamp_torecv_def Let_def)

lemma FrontPad_sendbuf_drop:
  "FrontPad_sendbuf a (int (length a - m)) = drop m a"
proof -
  define k where "k = length a - m"
  have nat: "nat (int k) = k" by simp
  show ?thesis
  proof (cases "0 < k")
    case True
    then have m: "m < length a" by (simp add: k_def)
    show ?thesis
    proof (cases "length a \<le> k")
      case True
      then have "m = 0" using m by (simp add: k_def)
      then show ?thesis using True \<open>0 < k\<close> unfolding FrontPad_sendbuf_def k_def[symmetric] nat
        by simp
    next
      case False
      have "length a - k = m" using m by (simp add: k_def)
      then show ?thesis using False \<open>0 < k\<close> unfolding FrontPad_sendbuf_def k_def[symmetric] nat
        by simp
    qed
  next
    case False
    then have "length a \<le> m" by (simp add: k_def)
    then show ?thesis using False unfolding FrontPad_sendbuf_def k_def[symmetric] by simp
  qed
qed

lemma sum_list_all_zero:
  fixes xs :: "int list"
  assumes "\<forall>x \<in> set xs. x = 0"
  shows "sum_list xs = 0"
  using assms by (induction xs) auto

lemma FrontPad_torecv_length: "length (FrontPad_torecv N front rank) = length N"
  by (simp add: FrontPad_torecv_def Let_def del: upt_Suc)

lemma FrontPad_torecv_drop:
  assumes "0 \<le> front" "rank < length arrays" "i < length arrays"
  shows "FrontPad_torecv (map (\<lambda>a. int (length a)) arrays) front rank ! i
           = int (length (arrays ! i)
                  - (if i < rank
                     then nat (int (length (concat (take rank arrays))) - front)
                            - length (concat (take i arrays))
                     else length (arrays ! i)))"
proof (cases "i < rank")
  case True
  then have "Suc i \<le> rank" by simp
  then have "length (concat (take (Suc i) arrays)) \<le> length (concat (take rank arrays))"
    by (rule prefix_length_mono)
  then have le: "length (concat (take i arrays)) + length (arrays ! i)
                  \<le> length (concat (take rank arrays))"
    using prefix_length_Suc[OF assms(3)] by simp
  show ?thesis
    unfolding FrontPad_torecv_nth[OF assms(2,3)] using True
    by (simp only: clamp_torecv_lower[OF assms(1) le] if_True)
next
  case False
  then have "rank \<le> i" by simp
  then have le: "length (concat (take rank arrays)) \<le> length (concat (take i arrays))"
    by (rule prefix_length_mono)
  show ?thesis
    unfolding FrontPad_torecv_nth[OF assms(2,3)] using False
    by (simp only: clamp_torecv_upper[OF assms(1) le] if_False diff_self_eq_0 of_nat_0)
qed

lemma FrontPad_received:
  assumes "0 \<le> front" "rank < length arrays"
  shows "concat (map (\<lambda>i. FrontPad_sendbuf (arrays ! i)
                             (FrontPad_torecv (map (\<lambda>a. int (length a)) arrays) front rank ! i))
                     [0..<length arrays])
           = drop (nat (int (length (concat (take rank arrays))) - front))
                  (concat (take rank arrays))"
proof -
  define k where "k = nat (int (length (concat (take rank arrays))) - front)"
  let ?t = "FrontPad_torecv (map (\<lambda>a. int (length a)) arrays) front rank"
  let ?send = "\<lambda>i. FrontPad_sendbuf (arrays ! i) (?t ! i)"
  have low: "?send i = drop (k - length (concat (take i (take rank arrays)))) (take rank arrays ! i)"
    if "i < rank" for i
  proof -
    have i: "i < length arrays" using that assms(2) by simp
    have "?send i = drop (k - length (concat (take i arrays))) (arrays ! i)"
      unfolding FrontPad_torecv_drop[OF assms(1,2) i] k_def using that
      by (simp only: if_True FrontPad_sendbuf_drop)
    then show ?thesis using that by (simp add: min_absorb1)
  qed
  have high: "?send i = []" if "rank \<le> i" "i < length arrays" for i
  proof -
    have "?send i = drop (length (arrays ! i)) (arrays ! i)"
      unfolding FrontPad_torecv_drop[OF assms(1,2) that(2)] using that(1)
      by (simp only: FrontPad_sendbuf_drop if_False not_less[symmetric])
    then show ?thesis by simp
  qed
  have "[0..<length arrays] = [0..<rank] @ [rank..<length arrays]"
    using assms(2) upt_add_eq_append[of 0 rank "length arrays - rank"] by simp
  then have "concat (map ?send [0..<length arrays])
               = concat (map ?send [0..<rank]) @ concat (map ?send [rank..<length arrays])"
    by (simp only: map_append concat_append)
  also have "map ?send [rank..<length arrays] = map (\<lambda>i. []) [rank..<length arrays]"
    by (rule map_cong[OF refl]) (simp add: high)
  also have "concat (map (\<lambda>i. []) [rank..<length arrays]) = []" by simp
  also have "map ?send [0..<rank]
               = map (\<lambda>i. drop (k - length (concat (take i (take rank arrays)))) (take rank arrays ! i))
                     [0..<length (take rank arrays)]"
    using assms(2) by (intro map_cong) (simp_all add: low)
  also have "concat \<dots> = drop k (concat (take rank arrays))"
    by (rule drop_concat_pieces[symmetric])
  finally show ?thesis unfolding k_def by simp
qed

lemma FrontPad_torecv_sum:
  assumes "rank < length arrays"
  shows "sum_list (FrontPad_torecv (map (\<lambda>a. int (length a)) arrays) front rank)
           = (if front < 0 then 0
              else int (length (concat (take rank arrays))
                        - nat (int (length (concat (take rank arrays))) - front)))"
proof (cases "front < 0")
  case True
  let ?t = "FrontPad_torecv (map (\<lambda>a. int (length a)) arrays) front rank"
  have "?t ! i = 0" if "i < length arrays" for i
    unfolding FrontPad_torecv_nth[OF assms that] using True by (intro clamp_torecv_negative) simp_all
  then have "\<forall>x \<in> set ?t. x = 0"
    by (auto simp: in_set_conv_nth FrontPad_torecv_length)
  then have "sum_list ?t = 0" by (rule sum_list_all_zero)
  then show ?thesis using True by simp
next
  case False
  then have f: "0 \<le> front" by simp
  let ?t = "FrontPad_torecv (map (\<lambda>a. int (length a)) arrays) front rank"
  let ?send = "\<lambda>i. FrontPad_sendbuf (arrays ! i) (?t ! i)"
  have len: "int (length (?send i)) = ?t ! i" if "i < length arrays" for i
    unfolding FrontPad_torecv_drop[OF f assms that] FrontPad_sendbuf_drop by simp
  have "sum_list ?t = sum_list (map (\<lambda>i. ?t ! i) [0..<length ?t])" by (simp only: map_nth)
  also have "\<dots> = sum_list (map (\<lambda>i. int (length (?send i))) [0..<length arrays])"
    unfolding FrontPad_torecv_length length_map
    by (rule arg_cong[where f = sum_list], rule map_cong[OF refl]) (simp add: len)
  also have "\<dots> = sum_list (map (\<lambda>a. int (length a)) (map ?send [0..<length arrays]))"
    by (simp add: comp_def)
  also have "\<dots> = int (length (concat (map ?send [0..<length arrays])))"
    by (rule sum_int_lengths)
  also have "\<dots> = int (length (drop (nat (int (length (concat (take rank arrays))) - front))
                                   (concat (take rank arrays))))"
    unfolding FrontPad_received[OF f assms] ..
  finally show ?thesis using False by simp
qed

lemma FrontPad_torecv_feasible:
  assumes "rank < length arrays"
  shows "(sum_list (FrontPad_torecv (map (\<lambda>a. int (length a)) arrays) front rank) = front)
           = (0 \<le> front \<and> front \<le> int (length (concat (take rank arrays))))"
  unfolding FrontPad_torecv_sum[OF assms] by auto

lemma window_of_prefix:
  assumes "0 \<le> front" "front \<le> int (length (concat (take rank arrays)))"
  shows "drop (nat (int (length (concat (take rank arrays))) - front)) (concat (take rank arrays))
           = take (nat front)
                  (drop (length (concat (take rank arrays)) - nat front) (concat arrays))"
proof -
  define P where "P = concat (take rank arrays)"
  define R where "R = concat (drop rank arrays)"
  have G: "concat arrays = P @ R"
    unfolding P_def R_def by (metis append_take_drop_id concat_append)
  have k: "nat (int (length P) - front) = length P - nat front"
    using assms by (simp add: P_def nat_diff_distrib)
  have le: "nat front \<le> length P" using assms by (simp add: P_def)
  have "take (nat front) (drop (length P - nat front) (P @ R))
          = take (nat front) (drop (length P - nat front) P @ R)" by simp
  also have "\<dots> = drop (length P - nat front) P" using le by simp
  finally show ?thesis unfolding G P_def[symmetric] k by simp
qed

lemma FrontPadArray_infeasible_iff:
  "list_ex (\<lambda>rank. sum_list (map (\<lambda>rank. FrontPad_torecv (map (\<lambda>a. int (length a)) (map fst args))
                                            (snd (args ! rank)) rank) [0..<length args] ! rank)
                      \<noteq> snd (args ! rank)) [0..<length args]
     = (\<not> spec_feasible args)"
proof -
  have "(sum_list (map (\<lambda>rank. FrontPad_torecv (map (\<lambda>a. int (length a)) (map fst args))
                                 (snd (args ! rank)) rank) [0..<length args] ! rank)
           = snd (args ! rank))
          = (0 \<le> snd (args ! rank) \<and> snd (args ! rank) \<le> int (spec_offset args rank))"
    if "rank < length args" for rank
    using that FrontPad_torecv_feasible[of rank "map fst args" "snd (args ! rank)"]
    by (simp add: spec_offset_def)
  then show ?thesis
    unfolding spec_feasible_def list_ex_iff list_all_iff by auto
qed

lemma FrontPadArray_feasible_rank:
  assumes "spec_feasible args" "rank < length args"
  shows "concat (map (\<lambda>i. FrontPad_sendbuf (map fst args ! i)
                        (map (\<lambda>rank. FrontPad_torecv (map (\<lambda>a. int (length a)) (map fst args))
                                        (snd (args ! rank)) rank) [0..<length args] ! rank ! i))
                     [0..<length args])
           @ map fst args ! rank
         = spec_padded args rank"
proof -
  let ?arrays = "map fst args" and ?f = "snd (args ! rank)"
  have f: "0 \<le> ?f" "?f \<le> int (length (concat (take rank ?arrays)))"
    using assms by (simp_all add: spec_feasible_def list_all_iff spec_offset_def)
  have r: "rank < length ?arrays" using assms(2) by simp
  have "concat (map (\<lambda>i. FrontPad_sendbuf (?arrays ! i)
                        (FrontPad_torecv (map (\<lambda>a. int (length a)) ?arrays) ?f rank ! i))
                     [0..<length ?arrays])
          = take (nat ?f) (drop (length (concat (take rank ?arrays)) - nat ?f) (concat ?arrays))"
    unfolding FrontPad_received[OF f(1) r] by (rule window_of_prefix[OF f])
  then show ?thesis
    using assms(2) by (simp add: spec_padded_def spec_offset_def)
qed

lemma FrontPadArray_eq:
  "FrontPadArray args =
     (if spec_feasible args
      then map (\<lambda>rank. Returned (spec_padded args rank)) [0..<length args]
      else replicate (length args)
             (Raised (ValueError ''cannot work out a plan to padd items. Some front values are too large.'')))"
proof (cases "spec_feasible args")
  case True
  have "map (\<lambda>rank. Returned (concat (map (\<lambda>i. FrontPad_sendbuf (map fst args ! i)
                        (map (\<lambda>rank. FrontPad_torecv (map (\<lambda>a. int (length a)) (map fst args))
                                        (snd (args ! rank)) rank) [0..<length args] ! rank ! i))
                     [0..<length args])
           @ map fst args ! rank)) [0..<length args]
        = map (\<lambda>rank. Returned (spec_padded args rank)) [0..<length args]"
    by (rule map_cong[OF refl]) (simp only: FrontPadArray_feasible_rank[OF True] set_upt atLeastLessThan_iff)
  then show ?thesis
    unfolding FrontPadArray_def Let_def FrontPadArray_infeasible_iff using True by simp
next
  case False
  then show ?thesis
    unfolding FrontPadArray_def Let_def FrontPadArray_infeasible_iff by simp
qed

lemma spec_padded_length:
  assumes "spec_feasible args" "rank < length args"
  shows "int (length (spec_padded args rank)) = snd (args ! rank) + int (length (fst (args ! rank)))"
proof -
  let ?f = "snd (args ! rank)"
  have f: "0 \<le> ?f" "?f \<le> int (spec_offset args rank)"
    using assms by (simp_all add: spec_feasible_def list_all_iff)
  have "spec_offset args rank \<le> length (concat (map fst args))"
    unfolding spec_offset_def
    using prefix_length_mono[of rank "length args" "map fst args"] assms(2) by simp
  then have "nat ?f \<le> length (concat (map fst args)) - (spec_offset args rank - nat ?f)"
    using f by linarith
  then show ?thesis using f by (simp add: spec_padded_def min_absorb2)
qed

text \<open>
  Claim C6. For every list of per-rank arrays and per-rank \<open>front\<close> values, either the
  request is feasible and every rank returns the \<open>front\<close> elements of the global array that
  immediately precede its offset, followed by its unchanged local array, which makes
  \<open>front + len(local)\<close> elements; or some rank asks for more elements than precede it (or
  for a negative number) and every rank raises the same \<open>ValueError\<close>. No rank is ever
  left waiting.
\<close>

theorem FrontPadArray_pads_or_raises:
  "FrontPadArray args =
     (if spec_feasible args
      then map (\<lambda>rank. Returned (spec_padded args rank)) [0..<length args]
      else replicate (length args)
             (Raised (ValueError ''cannot work out a plan to padd items. Some front values are too large.'')))
   \<and> list_all2
         (\<lambda>out (array, front).
            case out of
              Returned padded \<Rightarrow> int (length padded) = front + int (length array)
            | Raised e \<Rightarrow>
                e = ValueError ''cannot work out a plan to padd items. Some front values are too large.''
            | Hung \<Rightarrow> False)
         (FrontPadArray args) args"
proof (intro conjI)
  show eq: "FrontPadArray args =
     (if spec_feasible args
      then map (\<lambda>rank. Returned (spec_padded args rank)) [0..<length args]
      else replicate (length args)
             (Raised (ValueError ''cannot work out a plan to padd items. Some front values are too large.'')))"
    by (rule FrontPadArray_eq)
  show "list_all2
         (\<lambda>out (array, front).
            case out of
              Returned padded \<Rightarrow> int (length padded) = front + int (length array)
            | Raised e \<Rightarrow>
                e = ValueError ''cannot work out a plan to padd items. Some front values are too large.''
            | Hung \<Rightarrow> False)
         (FrontPadArray args) args"
  proof (cases "spec_feasible args")
    case True
    then show ?thesis
      unfolding eq list_all2_conv_all_nth
      by (simp add: spec_padded_length[OF True] case_prod_beta)
  next
    case False
    then show ?thesis
      unfolding eq list_all2_conv_all_nth by (simp add: case_prod_beta)
  qed
qed

lemma FrontPadArray_examples:
  "FrontPadArray [([1, 2, 3 :: nat], 0), ([4, 5], 2), ([], 4), ([6], 5), ([7, 8], 1)]
     = [Returned [1, 2, 3], Returned [2, 3, 4, 5], Returned [2, 3, 4, 5],
        Returned [1, 2, 3, 4, 5, 6], Returned [6, 7, 8]]"
  "FrontPadArray [([1, 2, 3 :: nat], 0), ([4, 5], 4)]
     = [Raised (ValueError ''cannot work out a plan to padd items. Some front values are too large.''),
        Raised (ValueError ''cannot work out a plan to padd items. Some front values are too large.'')]"
  "FrontPadArray [([1, 2, 3 :: nat], 1), ([4, 5], 1)]
     = [Raised (ValueError ''cannot work out a plan to padd items. Some front values are too large.''),
        Raised (ValueError ''cannot work out a plan to padd items. Some front values are too large.'')]"
  "FrontPadArray [([1, 2, 3 :: nat], 0), ([4, 5], - 1)]
     = [Raised (ValueError ''cannot work out a plan to padd items. Some front values are too large.''),
        Raised (ValueError ''cannot work out a plan to padd items. Some front values are too large.'')]"
  by code_simp+

section \<open>Gathering and scattering consistent arrays\<close>

subsection \<open>Fields of well-formed rows\<close>

lemma map_of_distinct_field:
  assumes "distinct (map fst flds)" "(name, d) \<in> set flds"
  shows "map_of flds name = Some d"
  using assms by (rule map_of_is_SomeI)

lemma conforms_getfield:
  assumes "conforms (Struct flds) v" "(name, d) \<in> set flds"
  shows "conforms d (getfield name v)"
proof (cases v)
  case (Rec vs)
  then have "list_all (\<lambda>(n, d). conforms d (getfield n (Rec vs))) flds" using assms(1) by simp
  then show ?thesis using assms(2) Rec by (auto simp: list_all_iff)
qed (use assms(1) in simp_all)

lemma shaped_getfield:
  assumes "shaped (Struct flds) trail v" "(name, d) \<in> set flds"
  shows "shaped d trail (getfield name v)"
  using assms(1)
proof (induction trail arbitrary: v)
  case Nil
  then show ?case using conforms_getfield[OF _ assms(2)] by simp
next
  case (Cons k ks)
  then obtain vs where v: "v = Sub vs" by (cases v) simp_all
  then have "length vs = k" "list_all (shaped (Struct flds) ks) vs" using Cons.prems by simp_all
  then show ?case using Cons.IH v by (simp add: list_all_iff)
qed

subsection \<open>Storing all fields gives the row back\<close>

lemma setfield_all_Rec:
  "foldl (\<lambda>v n. setfield n v (getfield n g)) (Rec bs) ns
     = Rec (map (\<lambda>(m, w). if m \<in> set ns then (m, getfield m g) else (m, w)) bs)"
proof (induction ns arbitrary: bs)
  case Nil
  then show ?case by (simp add: case_prod_beta)
next
  case (Cons n ns)
  have "foldl (\<lambda>v n. setfield n v (getfield n g)) (Rec bs) (n # ns)
          = foldl (\<lambda>v n. setfield n v (getfield n g))
              (Rec (map (\<lambda>(m, w). if m = n then (m, getfield n g) else (m, w)) bs)) ns"
    by simp
  also have "\<dots> = Rec (map (\<lambda>(m, w). if m \<in> set ns then (m, getfield m g) else (m, w))
                           (map (\<lambda>(m, w). if m = n then (m, getfield n g) else (m, w)) bs))"
    by (rule Cons.IH)
  also have "\<dots> = Rec (map (\<lambda>(m, w). if m \<in> set (n # ns) then (m, getfield m g) else (m, w)) bs)"
    by (auto simp: case_prod_beta)
  finally show ?case .
qed

lemma lookup_all_fields:
  assumes "distinct (map fst vs)"
  shows "map (\<lambda>m. (m, getfield m (Rec vs))) (map fst vs) = vs"
proof -
  have "(\<lambda>p. (fst p, getfield (fst p) (Rec vs))) p = p" if "p \<in> set vs" for p
  proof -
    obtain m v where p: "p = (m, v)" by (cases p)
    then have "map_of vs m = Some v" using assms that by (simp add: map_of_is_SomeI)
    then show ?thesis using p by simp
  qed
  then have "map (\<lambda>p. (fst p, getfield (fst p) (Rec vs))) vs = vs" by (rule map_idI)
  then show ?thesis by (simp only: map_map comp_def)
qed

lemma reassemble_record:
  assumes "conforms (Struct flds) g" "distinct (map fst flds)"
  shows "foldl (\<lambda>v n. setfield n v (getfield n g)) (blank_elem (Struct flds)) (map fst flds) = g"
proof -
  from assms(1) obtain vs where g: "g = Rec vs" and names: "map fst vs = map fst flds"
    by (cases g) simp_all
  let ?bs = "map (\<lambda>(n, d). (n, blank_elem d)) flds"
  have fst_bs: "map fst ?bs = map fst flds" by (simp add: comp_def case_prod_beta)
  have "foldl (\<lambda>v n. setfield n v (getfield n g)) (blank_elem (Struct flds)) (map fst flds)
          = Rec (map (\<lambda>(m, w). if m \<in> set (map fst flds) then (m, getfield m g) else (m, w)) ?bs)"
    by (simp only: blank_elem.simps setfield_all_Rec)
  also have "map (\<lambda>(m, w). if m \<in> set (map fst flds) then (m, getfield m g) else (m, w)) ?bs
               = map (\<lambda>m. (m, getfield m g)) (map fst ?bs)"
    by (auto simp: comp_def case_prod_beta)
  also have "\<dots> = map (\<lambda>m. (m, getfield m (Rec vs))) (map fst vs)"
    unfolding fst_bs names g ..
  also have "\<dots> = vs" using assms(2) names by (intro lookup_all_fields) simp
  finally show ?thesis using g by simp
qed

subsection \<open>Storing the columns row by row\<close>

lemma zip_map_zip:
  assumes "length rs = length gs"
  shows "zip (map h (zip rs gs)) gs = map (\<lambda>p. (h p, snd p)) (zip rs gs)"
  using assms by (induction rs gs rule: list_induct2) simp_all

lemma map_zip_replicate:
  "map (\<lambda>(r, g). h r g) (zip (replicate (length gs) b) gs) = map (h b) gs"
  by (induction gs) simp_all

lemma fold_set_rows:
  assumes "length rs = length gs"
  shows "foldl (\<lambda>rows n. map (\<lambda>(r, v). setfield n r v) (zip rows (map (getfield n) gs))) rs ns
           = map (\<lambda>(r, g). foldl (\<lambda>v n. setfield n v (getfield n g)) r ns) (zip rs gs)"
  using assms
proof (induction ns arbitrary: rs)
  case Nil
  have "map (\<lambda>(r, g). r) (zip rs gs) = rs"
    using Nil by (induction rs gs rule: list_induct2) simp_all
  then show ?case by simp
next
  case (Cons n ns)
  let ?F = "\<lambda>rows n. map (\<lambda>(r, v). setfield n r v) (zip rows (map (getfield n) gs))"
  let ?f = "\<lambda>g v n. setfield n v (getfield n g)"
  have step: "?F rs n = map (\<lambda>p. setfield n (fst p) (getfield n (snd p))) (zip rs gs)"
    by (simp add: zip_map2 case_prod_beta)
  have len: "length (?F rs n) = length gs" using Cons.prems by simp
  have "foldl ?F rs (n # ns) = foldl ?F (?F rs n) ns" by simp
  also have "\<dots> = map (\<lambda>(r, g). foldl (?f g) r ns) (zip (?F rs n) gs)"
    by (rule Cons.IH[OF len])
  also have "zip (?F rs n) gs
               = map (\<lambda>p. (setfield n (fst p) (getfield n (snd p)), snd p)) (zip rs gs)"
    unfolding step by (rule zip_map_zip[OF Cons.prems])
  also have "map (\<lambda>(r, g). foldl (?f g) r ns) \<dots>
               = map (\<lambda>(r, g). foldl (?f g) r (n # ns)) (zip rs gs)"
    by (simp add: case_prod_beta)
  finally show ?case .
qed

lemma setfield_all_Sub:
  "foldl (\<lambda>v n. setfield n v (getfield n (Sub gs))) (Sub rs) ns
     = Sub (foldl (\<lambda>rows n. map (\<lambda>(r, v). setfield n r v) (zip rows (map (getfield n) gs))) rs ns)"
  by (induction ns arbitrary: rs) simp_all

lemma reassemble_row:
  assumes "shaped (Struct flds) trail g" "distinct (map fst flds)"
  shows "foldl (\<lambda>v n. setfield n v (getfield n g)) (blank_row (Struct flds) trail) (map fst flds) = g"
  using assms(1)
proof (induction trail arbitrary: g)
  case Nil
  then show ?case using reassemble_record[OF _ assms(2)] by simp
next
  case (Cons k ks)
  then obtain gs where g: "g = Sub gs" by (cases g) simp_all
  then have len: "length gs = k" and all: "list_all (shaped (Struct flds) ks) gs"
    using Cons.prems by simp_all
  let ?b = "blank_row (Struct flds) ks"
  let ?names = "map fst flds"
  have "foldl (\<lambda>v n. setfield n v (getfield n g)) (blank_row (Struct flds) (k # ks)) ?names
          = Sub (foldl (\<lambda>rows n. map (\<lambda>(r, v). setfield n r v) (zip rows (map (getfield n) gs)))
                   (replicate (length gs) ?b) ?names)"
    unfolding g blank_row.simps len[symmetric] by (rule setfield_all_Sub)
  also have "foldl (\<lambda>rows n. map (\<lambda>(r, v). setfield n r v) (zip rows (map (getfield n) gs)))
                   (replicate (length gs) ?b) ?names
               = map (\<lambda>(r, g). foldl (\<lambda>v n. setfield n v (getfield n g)) r ?names)
                     (zip (replicate (length gs) ?b) gs)"
    by (rule fold_set_rows) simp
  also have "\<dots> = map (\<lambda>g. foldl (\<lambda>v n. setfield n v (getfield n g)) ?b ?names) gs"
    by (rule map_zip_replicate)
  also have "\<dots> = gs"
    using all Cons.IH by (intro map_idI) (simp add: list_all_iff)
  finally show ?case using g by simp
qed

subsection \<open>The receive buffer after the loop over the fields\<close>

lemma store_columns_None: "store_columns None cols = None"
  by (induction cols) auto

lemma store_columns_Some:
  "store_columns (Some buf) (map (\<lambda>name. (name, Some (c name))) names)
     = Some (buf \<lparr> nd_rows :=
                foldl (\<lambda>rows n. map (\<lambda>(r, v). setfield n r v) (zip rows (nd_rows (c n))))
                      (nd_rows buf) names \<rparr>)"
  by (induction names arbitrary: buf) (simp_all add: assign_column_def)

lemma store_columns_reassemble:
  assumes cols: "\<And>n. nd_rows (c n) = map (getfield n) G"
    and shaped: "list_all (shaped (Struct flds) trail) G"
    and distinct: "distinct (map fst flds)"
  shows "store_columns (Some (np_empty (length G) trail (Struct flds)))
                       (map (\<lambda>name. (name, Some (c name))) (map fst flds))
           = Some \<lparr> nd_dtype = Struct flds, nd_trail = trail, nd_rows = G \<rparr>"
proof -
  let ?b = "blank_row (Struct flds) trail"
  let ?names = "map fst flds"
  have "foldl (\<lambda>rows n. map (\<lambda>(r, v). setfield n r v) (zip rows (nd_rows (c n))))
              (replicate (length G) ?b) ?names
          = foldl (\<lambda>rows n. map (\<lambda>(r, v). setfield n r v) (zip rows (map (getfield n) G)))
              (replicate (length G) ?b) ?names"
    by (simp only: cols)
  also have "\<dots> = map (\<lambda>(r, g). foldl (\<lambda>v n. setfield n v (getfield n g)) r ?names)
                        (zip (replicate (length G) ?b) G)"
    by (rule fold_set_rows) simp
  also have "\<dots> = map (\<lambda>g. foldl (\<lambda>v n. setfield n v (getfield n g)) ?b ?names) G"
    by (rule map_zip_replicate)
  also have "\<dots> = G"
    using shaped reassemble_row[OF _ distinct] by (intro map_idI) (simp add: list_all_iff)
  finally show ?thesis
    unfolding store_columns_Some by (simp add: np_empty_def)
qed

lemma zip_names_columns:
  "zip (map fst flds) (map (\<lambda>(name, d). X name) flds) = map (\<lambda>name. (name, X name)) (map fst flds)"
  by (induction flds) auto

lemma first_error_all_Inr: "first_error (map (\<lambda>x. Inr (f x)) xs) = None"
  by (induction xs) simp_all

subsection \<open>Gathering arrays that agree on element type and trailing shape\<close>

lemma GatherArray_core_flat:
  assumes ne: "datas \<noteq> []"
    and same: "\<forall>a \<in> set datas. nd_dtype a = Scalar k \<and> nd_trail a = trail"
    and root: "case root of Rank r \<Rightarrow> r < length datas | Ellipsis \<Rightarrow> True"
  shows "GatherArray_core datas root =
           Inr (map (\<lambda>rank. if is_dest root rank
                             then Some \<lparr> nd_dtype = Scalar k, nd_trail = trail,
                                         nd_rows = concat (map nd_rows datas) \<rparr>
                             else None) [0..<length datas])"
proof -
  from ne obtain data0 others where datas: "datas = data0 # others" by (cases datas) auto
  have d0: "nd_dtype data0 = Scalar k" "nd_trail data0 = trail" using same datas by simp_all
  have bad_shape: "\<not> list_ex (\<lambda>data. nd_trail data \<noteq> nd_trail data0) others"
    using same datas d0 by (simp add: list_ex_iff)
  have bad_dtype: "\<not> list_ex (\<lambda>dt. dt \<noteq> Scalar k) (map nd_dtype others)"
    using same datas by (simp add: list_ex_iff)
  have root': "\<not> (case root of Rank r \<Rightarrow> r \<ge> Suc (length others) | Ellipsis \<Rightarrow> False)"
    using root datas by (cases root) simp_all
  have nth: "nd_dtype ((data0 # others) ! rank) = Scalar k \<and> nd_trail ((data0 # others) ! rank) = trail"
    if "rank < Suc (length others)" for rank
    using same that unfolding datas by (metis length_Cons nth_mem)
  have "GatherArray_core datas root =
          Inr (map (\<lambda>rank. if is_dest root rank
                            then Some \<lparr> nd_dtype = nd_dtype (datas ! rank),
                                        nd_trail = nd_trail (datas ! rank),
                                        nd_rows = concat (map nd_rows datas) \<rparr>
                            else None) [0..<length datas])"
    apply (subst GatherArray_core.simps)
    using bad_shape bad_dtype root'
    apply (simp add: datas d0 Let_def del: upt_Suc split: option.splits)
    done
  also have "map (\<lambda>rank. if is_dest root rank
                            then Some \<lparr> nd_dtype = nd_dtype (datas ! rank),
                                        nd_trail = nd_trail (datas ! rank),
                                        nd_rows = concat (map nd_rows datas) \<rparr>
                            else None) [0..<length datas]
              = map (\<lambda>rank. if is_dest root rank
                             then Some \<lparr> nd_dtype = Scalar k, nd_trail = trail,
                                         nd_rows = concat (map nd_rows datas) \<rparr>
                             else None) [0..<length datas]"
    by (rule map_cong[OF refl]) (use nth datas in auto)
  finally show ?thesis .
qed

lemma concat_columns:
  "concat (map nd_rows (map (column name) datas)) = map (getfield name) (concat (map nd_rows datas))"
  by (simp add: column_def comp_def map_concat)

lemma GatherArray_core_Cons_Struct:
  assumes "nd_dtype data0 = Struct flds"
  shows "GatherArray_core (data0 # others) root =
     (if list_ex (\<lambda>dt. \<not> is_Struct dt) (map nd_dtype others)
      then Inl (TypeError ''NoneType object is not iterable'')
      else if list_ex (\<lambda>dt. set (field_names dt) \<noteq> set (map fst flds)) (map nd_dtype others)
      then Inl (ValueError ''mismatch between data type fields in structured data'')
      else if list_ex (\<lambda>(name, d). d = Object) flds
      then Inl (ValueError ''object data types (O) not allowed in structured data in GatherArray'')
      else (case first_error
                   (map (\<lambda>(name, d). GatherArray_core (map (column name) (data0 # others)) root) flds) of
              Some e \<Rightarrow> Inl e
            | None \<Rightarrow>
                Inr (map (\<lambda>rank.
                       store_columns
                         (if is_dest root rank
                          then Some (np_empty (sum_list (map (\<lambda>data. length (nd_rows data)) (data0 # others)))
                                              (nd_trail ((data0 # others) ! rank)) (Struct flds))
                          else None)
                         (zip (map fst flds)
                              (map (\<lambda>ds. projr ds ! rank)
                                   (map (\<lambda>(name, d). GatherArray_core (map (column name) (data0 # others)) root)
                                        flds))))
                     [0..<length (data0 # others)])))"
  by (subst GatherArray_core.simps)
     (simp add: assms Let_def del: upt_Suc cong: map_cong split: option.splits)

lemma GatherArray_core_struct:
  assumes ne: "datas \<noteq> []"
    and same: "\<forall>a \<in> set datas. nd_dtype a = Struct flds \<and> nd_trail a = trail
                  \<and> list_all (shaped (Struct flds) trail) (nd_rows a)"
    and distinct: "distinct (map fst flds)"
    and noobj: "\<not> list_ex (\<lambda>(name, d). d = Object) flds"
    and cols: "\<And>name d. (name, d) \<in> set flds \<Longrightarrow>
                GatherArray_core (map (column name) datas) root =
                  Inr (map (\<lambda>rank. if is_dest root rank
                                    then Some \<lparr> nd_dtype = d, nd_trail = trail,
                                                nd_rows = concat (map nd_rows (map (column name) datas)) \<rparr>
                                    else None) [0..<length datas])"
  shows "GatherArray_core datas root =
           Inr (map (\<lambda>rank. if is_dest root rank
                             then Some \<lparr> nd_dtype = Struct flds, nd_trail = trail,
                                         nd_rows = concat (map nd_rows datas) \<rparr>
                             else None) [0..<length datas])"
proof -
  from ne obtain data0 others where datas: "datas = data0 # others" by (cases datas) auto
  define G where "G = concat (map nd_rows datas)"
  define n where "n = length datas"
  define c where "c = (\<lambda>name. \<lparr> nd_dtype = field_dtype (Struct flds) name, nd_trail = trail,
                               nd_rows = map (getfield name) G \<rparr>)"
  define R where "R = (\<lambda>name. map (\<lambda>rank. if is_dest root rank then Some (c name) else None) [0..<n])"
  define CS :: "(error + val ndarray option list) list"
    where "CS = map (\<lambda>p. Inr (R (fst p))) flds"
  have d0: "nd_dtype data0 = Struct flds" using same datas by simp
  have c1: "\<not> list_ex (\<lambda>dt. \<not> is_Struct dt) (map nd_dtype others)"
    using same datas by (simp add: list_ex_iff)
  have c2: "\<not> list_ex (\<lambda>dt. set (field_names dt) \<noteq> fst ` set flds) (map nd_dtype others)"
    using same datas by (simp add: list_ex_iff)
  have col: "GatherArray_core (map (column name) datas) root = Inr (R name)"
    if "(name, d) \<in> set flds" for name d
  proof -
    have "field_dtype (Struct flds) name = d"
      using map_of_distinct_field[OF distinct that] by simp
    then show ?thesis
      unfolding cols[OF that] R_def c_def n_def G_def concat_columns by simp
  qed
  have gathered_columns:
    "map (\<lambda>(name, d). GatherArray_core (map (column name) datas) root) flds
       = CS"
    unfolding CS_def by (rule map_cong[OF refl]) (auto simp: col)
  have lenG: "sum_list (map (\<lambda>data. length (nd_rows data)) datas) = length G"
    by (simp add: G_def length_concat comp_def)
  have trail: "nd_trail (datas ! rank) = trail" if "rank < n" for rank
    using same that unfolding n_def by (metis nth_mem)
  have shaped: "list_all (shaped (Struct flds) trail) G"
    using same unfolding G_def by (auto simp: list_all_iff)
  have rank: "store_columns
                (if is_dest root rank
                 then Some (np_empty (length G) (nd_trail (datas ! rank)) (Struct flds))
                 else None)
                (zip (map fst flds) (map (\<lambda>ds. projr ds ! rank) CS))
              = (if is_dest root rank
                 then Some \<lparr> nd_dtype = Struct flds, nd_trail = trail, nd_rows = G \<rparr>
                 else None)"
    if r: "rank < n" for rank
  proof -
    have m: "map (\<lambda>ds. projr ds ! rank) CS
            = map (\<lambda>(name, d). (if is_dest root rank then Some (c name) else None)) flds"
      using r by (simp add: CS_def R_def comp_def case_prod_beta)
    have zip: "zip (map fst flds) (map (\<lambda>ds. projr ds ! rank) CS)
            = map (\<lambda>name. (name, if is_dest root rank then Some (c name) else None)) (map fst flds)"
      unfolding m by (rule zip_names_columns)
    show ?thesis
    proof (cases "is_dest root rank")
      case True
      have "store_columns (Some (np_empty (length G) trail (Struct flds)))
                          (map (\<lambda>name. (name, Some (c name))) (map fst flds))
              = Some \<lparr> nd_dtype = Struct flds, nd_trail = trail, nd_rows = G \<rparr>"
        by (rule store_columns_reassemble[OF _ shaped distinct]) (simp add: c_def)
      then show ?thesis unfolding zip trail[OF r] using True by simp
    next
      case False
      then show ?thesis by (simp add: store_columns_None)
    qed
  qed
  have c1': "list_ex (\<lambda>dt. \<not> is_Struct dt) (map nd_dtype others) = False" using c1 by simp
  have c2': "list_ex (\<lambda>dt. set (field_names dt) \<noteq> set (map fst flds)) (map nd_dtype others) = False"
    using c2 by simp
  have c3': "list_ex (\<lambda>(name, d). d = Object) flds = False" using noobj by simp
  have fe: "first_error CS = None" unfolding CS_def by (rule first_error_all_Inr)
  have "GatherArray_core datas root =
          Inr (map (\<lambda>rank. store_columns
                (if is_dest root rank
                 then Some (np_empty (length G) (nd_trail (datas ! rank)) (Struct flds))
                 else None)
                (zip (map fst flds) (map (\<lambda>ds. projr ds ! rank) CS)))
              [0..<n])"
    unfolding GatherArray_core_Cons_Struct[OF d0, of others root, folded datas]
      c1' c2' c3' gathered_columns lenG fe n_def
    by simp
  also have "\<dots> = Inr (map (\<lambda>rank. if is_dest root rank
                 then Some \<lparr> nd_dtype = Struct flds, nd_trail = trail, nd_rows = G \<rparr>
                 else None) [0..<n])"
    using rank by (simp del: upt_Suc cong: map_cong)
  finally show ?thesis unfolding n_def G_def .
qed

lemma GatherArray_core_consistent:
  assumes "datas \<noteq> []"
    and "\<forall>a \<in> set datas. nd_dtype a = dt \<and> nd_trail a = trail
                          \<and> list_all (shaped dt trail) (nd_rows a)"
    and "wf_dtype dt" and "no_object dt"
    and "case root of Rank r \<Rightarrow> r < length datas | Ellipsis \<Rightarrow> True"
  shows "GatherArray_core datas root =
           Inr (map (\<lambda>rank. if is_dest root rank
                             then Some \<lparr> nd_dtype = dt, nd_trail = trail,
                                         nd_rows = concat (map nd_rows datas) \<rparr>
                             else None) [0..<length datas])"
  using assms
proof (induction dt arbitrary: datas)
  case (Scalar k)
  then show ?case by (intro GatherArray_core_flat) auto
next
  case Object
  then show ?case by simp
next
  case (Struct flds)
  have distinct: "distinct (map fst flds)" using Struct.prems(3) by simp
  have noobj: "\<not> list_ex (\<lambda>(name, d). d = Object) flds"
  proof
    assume "list_ex (\<lambda>(name, d). d = Object) flds"
    then obtain name where "(name, Object) \<in> set flds" by (auto simp: list_ex_iff)
    then have "no_object Object" using Struct.prems(4) by (auto simp: list_all_iff)
    then show False by simp
  qed
  have cols: "GatherArray_core (map (column name) datas) root =
                  Inr (map (\<lambda>rank. if is_dest root rank
                                    then Some \<lparr> nd_dtype = d, nd_trail = trail,
                                                nd_rows = concat (map nd_rows (map (column name) datas)) \<rparr>
                                    else None) [0..<length datas])"
    if mem: "(name, d) \<in> set flds" for name d
  proof -
    have fd: "field_dtype (Struct flds) name = d"
      using map_of_distinct_field[OF distinct mem] by simp
    have 1: "map (column name) datas \<noteq> []" using Struct.prems(1) by simp
    have 2: "\<forall>a \<in> set (map (column name) datas).
               nd_dtype a = d \<and> nd_trail a = trail \<and> list_all (shaped d trail) (nd_rows a)"
    proof
      fix a assume "a \<in> set (map (column name) datas)"
      then obtain b where b: "b \<in> set datas" "a = column name b" by auto
      then have p: "nd_dtype b = Struct flds" "nd_trail b = trail"
        "list_all (shaped (Struct flds) trail) (nd_rows b)"
        using Struct.prems(2) by auto
      have "list_all (shaped d trail) (map (getfield name) (nd_rows b))"
        using p(3) shaped_getfield[OF _ mem] by (auto simp: list_all_iff)
      then show "nd_dtype a = d \<and> nd_trail a = trail \<and> list_all (shaped d trail) (nd_rows a)"
        using b(2) p fd by (simp add: column_def)
    qed
    have 3: "wf_dtype d" using Struct.prems(3) mem by (auto simp: list_all_iff)
    have 4: "no_object d" using Struct.prems(4) mem by (auto simp: list_all_iff)
    have 5: "case root of Rank r \<Rightarrow> r < length (map (column name) datas) | Ellipsis \<Rightarrow> True"
      using Struct.prems(5) by (cases root) simp_all
    have "d \<in> Basic_BNFs.snds (name, d)" by simp
    from Struct.IH[OF mem this 1 2 3 4 5] show ?thesis by simp
  qed
  show ?case
    using Struct.prems(1,2) distinct noobj cols by (intro GatherArray_core_struct) auto
qed

lemma GatherArray_consistent:
  assumes "datas \<noteq> []"
    and "\<forall>a \<in> set datas. nd_dtype a = dt \<and> nd_trail a = trail
                          \<and> list_all (shaped dt trail) (nd_rows a)"
    and "wf_dtype dt" and "no_object dt"
    and "case root of Rank r \<Rightarrow> r < length datas | Ellipsis \<Rightarrow> True"
  shows "GatherArray (map Some datas) root =
           map (\<lambda>rank. Returned (if is_dest root rank
                                  then Some \<lparr> nd_dtype = dt, nd_trail = trail,
                                              nd_rows = concat (map nd_rows datas) \<rparr>
                                  else None)) [0..<length datas]"
proof -
  have "\<not> list_ex (\<lambda>data. data = None) (map Some datas)" by (simp add: list_ex_iff)
  moreover have "map the (map Some datas) = datas" by (simp add: comp_def)
  ultimately show ?thesis
    unfolding GatherArray_def using GatherArray_core_consistent[OF assms]
    by (simp add: comp_def)
qed

subsection \<open>Scattering the gathered array back\<close>

lemma slice_concat:
  assumes "r < length xss"
  shows "take (length (xss ! r)) (drop (length (concat (take r xss))) (concat xss)) = xss ! r"
proof -
  have "xss = take r xss @ xss ! r # drop (Suc r) xss"
    using assms by (simp add: id_take_nth_drop)
  then have "concat xss = concat (take r xss) @ xss ! r @ concat (drop (Suc r) xss)"
    by (metis concat.simps(2) concat_append)
  then show ?thesis by simp
qed

lemma sum_take_nat_lengths:
  "sum_list (take r (map length xss)) = length (concat (take r xss))"
  by (simp add: take_map length_concat)

lemma no_object_passes_check:
  assumes "no_object dt"
  shows "\<not> (case dt of Struct flds \<Rightarrow> list_ex (\<lambda>(name, d). d = Object) flds | _ \<Rightarrow> dt = Object)"
proof (cases dt)
  case (Struct flds)
  have "\<not> list_ex (\<lambda>(name, d). d = Object) flds"
  proof
    assume "list_ex (\<lambda>(name, d). d = Object) flds"
    then obtain name where "(name, Object) \<in> set flds" by (auto simp: list_ex_iff)
    then have "no_object Object" using assms Struct by (auto simp: list_all_iff)
    then show False by simp
  qed
  then show ?thesis using Struct by simp
qed (use assms in simp_all)

lemma Scatterv_slices:
  assumes "\<forall>a \<in> set datas. nd_dtype a = dt \<and> nd_trail a = trail"
  shows "Scatterv (concat (map nd_rows datas)) (map (\<lambda>a. length (nd_rows a)) datas) dt trail
           = map Returned datas"
proof -
  let ?xss = "map nd_rows datas"
  have counts: "map (\<lambda>a. length (nd_rows a)) datas = map length ?xss" by (simp add: comp_def)
  have enough: "\<not> length (concat ?xss) < sum_list (map length ?xss)"
    by (simp add: length_concat)
  have row: "\<lparr> nd_dtype = dt, nd_trail = trail,
              nd_rows = take (map length ?xss ! rank)
                          (drop (sum_list (take rank (map length ?xss))) (concat ?xss)) \<rparr>
               = datas ! rank" if "rank < length datas" for rank
  proof -
    have "take (map length ?xss ! rank) (drop (sum_list (take rank (map length ?xss))) (concat ?xss))
            = ?xss ! rank"
      unfolding sum_take_nat_lengths using that slice_concat[of rank ?xss] by simp
    moreover have "nd_dtype (datas ! rank) = dt" "nd_trail (datas ! rank) = trail"
      using assms that by (metis nth_mem)+
    ultimately show ?thesis using that by simp
  qed
  have "Scatterv (concat ?xss) (map length ?xss) dt trail
          = map (\<lambda>rank. Returned (datas ! rank)) [0..<length datas]"
    unfolding Scatterv_def using enough row by (simp del: upt_Suc cong: map_cong)
  also have "\<dots> = map Returned (map (\<lambda>rank. datas ! rank) [0..<length datas])"
    by (simp add: comp_def)
  also have "\<dots> = map Returned datas" by (simp only: map_nth)
  finally show ?thesis unfolding counts .
qed

lemma ScatterArray_gathered:
  assumes "datas \<noteq> []"
    and "\<forall>a \<in> set datas. nd_dtype a = dt \<and> nd_trail a = trail"
    and "no_object dt"
  shows "ScatterArray
           (Some \<lparr> nd_dtype = dt, nd_trail = trail, nd_rows = concat (map nd_rows datas) \<rparr>
              # replicate (length datas - 1) None)
           0 (Some (map (\<lambda>a. length (nd_rows a)) datas))
         = map Returned datas"
proof -
  have len: "Suc (length datas - 1) = length datas" using assms(1) by (cases datas) simp_all
  have sum: "sum_list (map (\<lambda>a. length (nd_rows a)) datas) = length (concat (map nd_rows datas))"
    by (simp add: length_concat comp_def)
  show ?thesis
    unfolding ScatterArray_def
    using no_object_passes_check[OF assms(3)] Scatterv_slices[OF assms(2)] len
    by (simp add: Let_def sum)
qed

section \<open>Type and shape mismatches in GatherArray\<close>

text \<open>
  Claim C2, evaluated on the code. Rank 0 holds an \<open>i8\<close> array and rank 1 an \<open>f8\<close> array.
  Gathered to rank 0 or to all ranks, every rank raises the mismatch between dtypes.
  Gathered to rank 1, the flags are computed on rank 1 but the broadcast sends those of
  rank 0, which are \<open>(None, None)\<close>: no rank raises, and every rank goes on to the
  gather. The same happens for two ranks that differ in their trailing shape.
\<close>

theorem GatherArray_mismatch_unchecked:
  "GatherArray [Some \<lparr> nd_dtype = Scalar ''i8'', nd_trail = [], nd_rows = [Num 1] \<rparr>,
                Some \<lparr> nd_dtype = Scalar ''f8'', nd_trail = [], nd_rows = [Num 2] \<rparr>] (Rank 0)
     = [Raised (ValueError ''mismatch between dtypes across ranks in GatherArray''),
        Raised (ValueError ''mismatch between dtypes across ranks in GatherArray'')]
   \<and> GatherArray [Some \<lparr> nd_dtype = Scalar ''i8'', nd_trail = [], nd_rows = [Num 1] \<rparr>,
                  Some \<lparr> nd_dtype = Scalar ''f8'', nd_trail = [], nd_rows = [Num 2] \<rparr>] Ellipsis
     = [Raised (ValueError ''mismatch between dtypes across ranks in GatherArray''),
        Raised (ValueError ''mismatch between dtypes across ranks in GatherArray'')]
   \<and> list_all is_Returned
         (GatherArray [Some \<lparr> nd_dtype = Scalar ''i8'', nd_trail = [], nd_rows = [Num 1] \<rparr>,
                       Some \<lparr> nd_dtype = Scalar ''f8'', nd_trail = [], nd_rows = [Num 2] \<rparr>] (Rank 1))
   \<and> GatherArray [Some \<lparr> nd_dtype = Scalar ''i8'', nd_trail = [], nd_rows = [Num 1] \<rparr>,
                  Some \<lparr> nd_dtype = Scalar ''i8'', nd_trail = [3], nd_rows = [] \<rparr>] (Rank 0)
     = [Raised (ValueError ''mismatch between shape[1:] across ranks in GatherArray''),
        Raised (ValueError ''mismatch between shape[1:] across ranks in GatherArray'')]
   \<and> list_all is_Returned
         (GatherArray [Some \<lparr> nd_dtype = Scalar ''i8'', nd_trail = [], nd_rows = [Num 1] \<rparr>,
                       Some \<lparr> nd_dtype = Scalar ''i8'', nd_trail = [3], nd_rows = [] \<rparr>] (Rank 1))"
  by code_simp

section \<open>The root of ScatterArray\<close>

text \<open>
  Claim C3, evaluated on the code. With the data on rank 1 only and \<open>root = 1\<close>, rank 0
  reads the shape of its own \<open>data\<close>, which is \<open>None\<close>, and raises \<open>AttributeError\<close>; rank 1
  waits in the broadcast for ever. With the data on rank 0 and \<open>root = 0\<close> the same array
  is scattered.
\<close>

theorem ScatterArray_root_ignored:
  "ScatterArray [None,
                 Some \<lparr> nd_dtype = Scalar ''i8'', nd_trail = [], nd_rows = [Num 1, Num 2] \<rparr>] 1 None
     = [Raised (AttributeError ''NoneType object has no attribute flags''), Hung]
   \<and> ScatterArray [Some \<lparr> nd_dtype = Scalar ''i8'', nd_trail = [], nd_rows = [Num 1, Num 2] \<rparr>,
                   None] 0 None
     = [Returned \<lparr> nd_dtype = Scalar ''i8'', nd_trail = [], nd_rows = [Num 1] \<rparr>,
        Returned \<lparr> nd_dtype = Scalar ''i8'', nd_trail = [], nd_rows = [Num 2] \<rparr>]"
  by code_simp

section \<open>The round trip of a distributed array\<close>

lemma root0_results:
  assumes "0 < n"
  shows "map (\<lambda>rank. Returned (if is_dest (Rank 0) rank then Some G else None)) [0..<n]
           = map Returned (Some G # replicate (n - 1) None)"
proof -
  let ?f = "\<lambda>rank. Returned (if is_dest (Rank 0) rank then Some G else None)"
  have "[0..<n] = 0 # [1..<n]" using assms by (simp add: upt_conv_Cons)
  then have "map ?f [0..<n] = ?f 0 # map ?f [1..<n]" by simp
  also have "map ?f [1..<n] = map (\<lambda>rank. Returned None) [1..<n]"
    by (rule map_cong[OF refl]) simp
  also have "\<dots> = replicate (length [1..<n]) (Returned None)"
    by (rule map_replicate_const)
  finally show ?thesis by simp
qed

text \<open>
  Claim C1. Let every rank of a communicator of at least one rank hold a well-formed array,
  all of one element type (flat or structured, without object fields) and one trailing
  shape. Then \<open>GatherArray\<close> to root 0 returns on every rank, and \<open>ScatterArray\<close> from root 0
  of what the ranks got (the gathered array on rank 0, \<open>None\<close> elsewhere), with the original
  local lengths as \<open>counts\<close>, returns on every rank the array the rank started with.
\<close>

theorem Scatter_Gather_roundtrip:
  assumes "datas \<noteq> []"
    and "\<forall>a \<in> set datas. nd_dtype a = dt \<and> nd_trail a = trail \<and> wf_array a"
    and "no_object dt"
  shows "\<exists>gathered.
           GatherArray (map Some datas) (Rank 0) = map Returned gathered \<and>
           ScatterArray gathered 0 (Some (map (\<lambda>a. length (nd_rows a)) datas)) = map Returned datas"
proof -
  let ?G = "\<lparr> nd_dtype = dt, nd_trail = trail, nd_rows = concat (map nd_rows datas) \<rparr>"
  let ?gathered = "Some ?G # replicate (length datas - 1) None"
  obtain a where a: "a \<in> set datas" using assms(1) by (cases datas) auto
  then have wf: "wf_dtype dt" using assms(2) by (auto simp: wf_array_def)
  have same: "\<forall>a \<in> set datas. nd_dtype a = dt \<and> nd_trail a = trail
                          \<and> list_all (shaped dt trail) (nd_rows a)"
    using assms(2) by (auto simp: wf_array_def)
  have root: "case Rank 0 of Rank r \<Rightarrow> r < length datas | Ellipsis \<Rightarrow> True"
    using assms(1) by simp
  have "GatherArray (map Some datas) (Rank 0)
          = map (\<lambda>rank. Returned (if is_dest (Rank 0) rank then Some ?G else None)) [0..<length datas]"
    by (rule GatherArray_consistent[OF assms(1) same wf assms(3) root])
  also have "\<dots> = map Returned ?gathered"
    using assms(1) by (intro root0_results) simp
  finally have gather: "GatherArray (map Some datas) (Rank 0) = map Returned ?gathered" .
  have scatter: "ScatterArray ?gathered 0 (Some (map (\<lambda>a. length (nd_rows a)) datas)) = map Returned datas"
    using assms(2) by (intro ScatterArray_gathered[OF assms(1) _ assms(3)]) simp
  show ?thesis
    by (intro exI[of _ ?gathered] conjI) (fact gather scatter)+
qed

theorem Scatter_Gather_roundtrip_witness:
  "\<exists>gathered.
     GatherArray
       [Some \<lparr> nd_dtype = Struct [(''id'', Scalar ''i8''), (''pos'', Scalar ''f8'')], nd_trail = [2],
               nd_rows = [Sub [Rec [(''id'', Num 1), (''pos'', Num 10)],
                               Rec [(''id'', Num 2), (''pos'', Num 20)]]] \<rparr>,
        Some \<lparr> nd_dtype = Struct [(''id'', Scalar ''i8''), (''pos'', Scalar ''f8'')], nd_trail = [2],
               nd_rows = [] \<rparr>,
        Some \<lparr> nd_dtype = Struct [(''id'', Scalar ''i8''), (''pos'', Scalar ''f8'')], nd_trail = [2],
               nd_rows = [Sub [Rec [(''id'', Num 3), (''pos'', Num 30)],
                               Rec [(''id'', Num 4), (''pos'', Num 40)]],
                          Sub [Rec [(''id'', Num 5), (''pos'', Num 50)],
                               Rec [(''id'', Num 6), (''pos'', Num 60)]]] \<rparr>]
       (Rank 0) = map Returned gathered \<and>
     ScatterArray gathered 0 (Some [1, 0, 2])
       = [Returned \<lparr> nd_dtype = Struct [(''id'', Scalar ''i8''), (''pos'', Scalar ''f8'')], nd_trail = [2],
               nd_rows = [Sub [Rec [(''id'', Num 1), (''pos'', Num 10)],
                               Rec [(''id'', Num 2), (''pos'', Num 20)]]] \<rparr>,
          Returned \<lparr> nd_dtype = Struct [(''id'', Scalar ''i8''), (''pos'', Scalar ''f8'')], nd_trail = [2],
               nd_rows = [] \<rparr>,
          Returned \<lparr> nd_dtype = Struct [(''id'', Scalar ''i8''), (''pos'', Scalar ''f8'')], nd_trail = [2],
               nd_rows = [Sub [Rec [(''id'', Num 3), (''pos'', Num 30)],
                               Rec [(''id'', Num 4), (''pos'', Num 40)]],
                          Sub [Rec [(''id'', Num 5), (''pos'', Num 50)],
                               Rec [(''id'', Num 6), (''pos'', Num 60)]]] \<rparr>]"
proof -
  let ?dt = "Struct [(''id'', Scalar ''i8''), (''pos'', Scalar ''f8'')]"
  let ?a0 = "\<lparr> nd_dtype = ?dt, nd_trail = [2],
               nd_rows = [Sub [Rec [(''id'', Num 1), (''pos'', Num 10)],
                               Rec [(''id'', Num 2), (''pos'', Num 20)]]] \<rparr>"
  let ?a1 = "\<lparr> nd_dtype = ?dt, nd_trail = [2], nd_rows = [] :: val list \<rparr>"
  let ?a2 = "\<lparr> nd_dtype = ?dt, nd_trail = [2],
               nd_rows = [Sub [Rec [(''id'', Num 3), (''pos'', Num 30)],
                               Rec [(''id'', Num 4), (''pos'', Num 40)]],
                          Sub [Rec [(''id'', Num 5), (''pos'', Num 50)],
                               Rec [(''id'', Num 6), (''pos'', Num 60)]]] \<rparr>"
  have h1: "[?a0, ?a1, ?a2] \<noteq> []" by simp
  have h2: "\<forall>a \<in> set [?a0, ?a1, ?a2]. nd_dtype a = ?dt \<and> nd_trail a = [2] \<and> wf_array a"
    by (simp add: wf_array_def)
  have h3: "no_object ?dt" by simp
  from Scatter_Gather_roundtrip[OF h1 h2 h3]
  obtain gathered where
    g: "GatherArray (map Some [?a0, ?a1, ?a2]) (Rank 0) = map Returned gathered" and
    s: "ScatterArray gathered 0 (Some (map (\<lambda>a. length (nd_rows a)) [?a0, ?a1, ?a2]))
          = map Returned [?a0, ?a1, ?a2]"
    by blast
  have g': "GatherArray [Some ?a0, Some ?a1, Some ?a2] (Rank 0) = map Returned gathered"
    using g by simp
  have s': "ScatterArray gathered 0 (Some [1, 0, 2])
              = [Returned ?a0, Returned ?a1, Returned ?a2]"
    using s by (simp add: numeral_2_eq_2)
  show ?thesis
    by (intro exI[of _ gathered] conjI) (fact g' s')+
qed

section \<open>The identity of EmptyRank across pickling\<close>

lemma import_module_ok: "interp_ok (import_module free)"
  by (simp add: interp_ok_def import_module_def)

lemma loads_all_inv:
  assumes "EmptyRank_global s = g" "n \<le> next_id s" "loads_all s ps = (xs, s')"
  shows "list_all2 (\<lambda>p x. case p of Reduce f \<Rightarrow> x = g
                                   | Bytes v \<Rightarrow> obj_content x = Element v \<and> n \<le> obj_id x) ps xs"
  using assms
proof (induction ps arbitrary: s xs s')
  case Nil
  then show ?case by simp
next
  case (Cons p ps)
  obtain x s1 where l: "loads s p = (x, s1)" by (cases "loads s p")
  obtain ys s2 where r: "loads_all s1 ps = (ys, s2)" by (cases "loads_all s1 ps")
  have xs: "xs = x # ys" using Cons.prems(3) l r by simp
  have s1: "EmptyRank_global s1 = g" "n \<le> next_id s1"
    using l Cons.prems(1,2) by (auto simp: loads_def split: pickle.splits)
  have head: "case p of Reduce f \<Rightarrow> x = g
                      | Bytes v \<Rightarrow> obj_content x = Element v \<and> n \<le> obj_id x"
  proof (cases p)
    case (Reduce f)
    then show ?thesis using l Cons.prems(1) by (cases f) (auto simp: loads_def get_empty_rank_def)
  next
    case (Bytes v)
    then show ?thesis using l Cons.prems(2) by (auto simp: loads_def)
  qed
  show ?case unfolding xs using head Cons.IH[OF s1 r] by simp
qed

lemma received_objects:
  assumes "interp_ok s" "allgather_objects s sent = (received, s')"
  shows "map as_boundary received = map as_boundary sent"
    and "list_all (\<lambda>x. is_object x (EmptyRank_global s) = (obj_content x = EmptyRankType)) received"
proof -
  let ?g = "EmptyRank_global s"
  have inv: "list_all2 (\<lambda>p x. case p of Reduce f \<Rightarrow> x = ?g
                 | Bytes v \<Rightarrow> obj_content x = Element v \<and> next_id s \<le> obj_id x)
               (map dumps sent) received"
    using assms(2) unfolding allgather_objects_def by (intro loads_all_inv[of s]) simp_all
  have g: "obj_content ?g = EmptyRankType" "obj_id ?g < next_id s"
    using assms(1) by (simp_all add: interp_ok_def)
  have len: "length received = length sent" using inv by (auto dest: list_all2_lengthD)
  have each: "as_boundary (received ! i) = as_boundary (sent ! i)
              \<and> is_object (received ! i) ?g = (obj_content (received ! i) = EmptyRankType)"
    if "i < length sent" for i
  proof -
    have p: "case dumps (sent ! i) of Reduce f \<Rightarrow> received ! i = ?g
                 | Bytes v \<Rightarrow> obj_content (received ! i) = Element v \<and> next_id s \<le> obj_id (received ! i)"
      using list_all2_nthD[OF inv, of i] that by simp
    show ?thesis
    proof (cases "obj_content (sent ! i)")
      case EmptyRankType
      then have "received ! i = ?g" using p by (simp add: dumps_def)
      then show ?thesis using EmptyRankType g by (simp add: as_boundary_def is_object_def)
    next
      case (Element v)
      then have "obj_content (received ! i) = Element v" "next_id s \<le> obj_id (received ! i)"
        using p by (simp_all add: dumps_def)
      then show ?thesis using Element g by (simp add: as_boundary_def is_object_def)
    qed
  qed
  show "map as_boundary received = map as_boundary sent"
    using each len by (intro nth_equalityI) simp_all
  show "list_all (\<lambda>x. is_object x ?g = (obj_content x = EmptyRankType)) received"
    using each len by (auto simp: list_all_iff in_set_conv_nth)
qed

lemma first_not_EmptyRank_boundary:
  assumes "obj_content (EmptyRank_global s) = EmptyRankType"
    and "list_all (\<lambda>x. is_object x (EmptyRank_global s) = (obj_content x = EmptyRankType)) xs"
  shows "as_boundary (first_not_EmptyRank s xs) = first_item (map as_boundary xs)"
  using assms(2)
proof (induction xs)
  case Nil
  then show ?case using assms(1) by (simp add: as_boundary_def)
next
  case (Cons x xs)
  then show ?case by (cases "obj_content x") (simp_all add: as_boundary_def)
qed

text \<open>
  Claim C8. In an interpreter that has imported the module, unpickling the pickle of any
  instance of \<open>EmptyRankType\<close> gives the module global \<open>EmptyRank\<close> itself and allocates
  nothing. Of the objects a rank receives from \<open>allgather\<close>, exactly those that stand for
  an empty rank are identical to \<open>EmptyRank\<close>; an element is never identical to it. So
  \<open>prev()\<close> and \<open>next()\<close>, which test \<open>is not EmptyRank\<close>, return the boundary value that the
  scan over the values sent gives.
\<close>

theorem EmptyRank_survives_allgather:
  assumes "interp_ok s" and "allgather_objects s sent = (received, s')"
  shows "(\<forall>e. obj_content e = EmptyRankType \<longrightarrow> loads s (dumps e) = (EmptyRank_global s, s)) \<and>
         map as_boundary received = map as_boundary sent \<and>
         list_all (\<lambda>x. is_object x (EmptyRank_global s) = (obj_content x = EmptyRankType)) received \<and>
         (\<forall>rank. as_boundary (prev_objects s received rank)
                   = first_item (rev (take rank (map as_boundary sent)))) \<and>
         (\<forall>rank. as_boundary (next_objects s received rank)
                   = first_item (drop (rank + 1) (map as_boundary sent)))"
proof (intro conjI allI impI)
  fix e :: "'a pyobj"
  assume "obj_content e = EmptyRankType"
  then show "loads s (dumps e) = (EmptyRank_global s, s)"
    by (simp add: dumps_def loads_def EmptyRankType_reduce_def get_empty_rank_def)
next
  show same: "map as_boundary received = map as_boundary sent"
    by (rule received_objects(1)[OF assms])
  show ident: "list_all (\<lambda>x. is_object x (EmptyRank_global s) = (obj_content x = EmptyRankType)) received"
    by (rule received_objects(2)[OF assms])
  have g: "obj_content (EmptyRank_global s) = EmptyRankType"
    using assms(1) by (simp add: interp_ok_def)
  fix rank
  have "list_all (\<lambda>x. is_object x (EmptyRank_global s) = (obj_content x = EmptyRankType))
          (rev (take rank received))"
    using ident by (auto simp: list_all_iff dest: in_set_takeD)
  then have "as_boundary (prev_objects s received rank)
               = first_item (map as_boundary (rev (take rank received)))"
    unfolding prev_objects_def by (rule first_not_EmptyRank_boundary[OF g])
  also have "\<dots> = first_item (rev (take rank (map as_boundary received)))"
    by (simp add: rev_map take_map)
  finally show "as_boundary (prev_objects s received rank)
                  = first_item (rev (take rank (map as_boundary sent)))"
    unfolding same .
  have "list_all (\<lambda>x. is_object x (EmptyRank_global s) = (obj_content x = EmptyRankType))
          (drop (rank + 1) received)"
    using ident by (auto simp: list_all_iff dest: in_set_dropD)
  then have "as_boundary (next_objects s received rank)
               = first_item (map as_boundary (drop (rank + 1) received))"
    unfolding next_objects_def by (rule first_not_EmptyRank_boundary[OF g])
  also have "\<dots> = first_item (drop (rank + 1) (map as_boundary received))"
    by (simp add: drop_map)
  finally show "as_boundary (next_objects s received rank)
                  = first_item (drop (rank + 1) (map as_boundary sent))"
    unfolding same .
qed

theorem EmptyRank_survives_allgather_witness:
  "interp_ok (import_module 7 :: int interp) \<and>
   allgather_objects (import_module 7)
       [\<lparr> obj_id = 3, obj_content = EmptyRankType \<rparr>,
        \<lparr> obj_id = 7, obj_content = Element (5 :: int) \<rparr>,
        \<lparr> obj_id = 4, obj_content = EmptyRankType \<rparr>]
     = ([\<lparr> obj_id = 7, obj_content = EmptyRankType \<rparr>,
         \<lparr> obj_id = 8, obj_content = Element 5 \<rparr>,
         \<lparr> obj_id = 7, obj_content = EmptyRankType \<rparr>],
        \<lparr> EmptyRank_global = \<lparr> obj_id = 7, obj_content = EmptyRankType \<rparr>, next_id = 9 \<rparr>) \<and>
   loads (import_module 7 :: int interp) (dumps \<lparr> obj_id = 3, obj_content = EmptyRankType \<rparr>)
     = (EmptyRank_global (import_module 7), import_module 7) \<and>
   as_boundary (prev_objects (import_module 7)
       [\<lparr> obj_id = 7, obj_content = EmptyRankType \<rparr>,
        \<lparr> obj_id = 8, obj_content = Element (5 :: int) \<rparr>,
        \<lparr> obj_id = 7, obj_content = EmptyRankType \<rparr>] 3)
     = Item 5"
proof -
  let ?s = "import_module 7 :: int interp"
  let ?sent = "[\<lparr> obj_id = 3, obj_content = EmptyRankType \<rparr>,
        \<lparr> obj_id = 7, obj_content = Element (5 :: int) \<rparr>,
        \<lparr> obj_id = 4, obj_content = EmptyRankType \<rparr>]"
  let ?received = "[\<lparr> obj_id = 7, obj_content = EmptyRankType \<rparr>,
         \<lparr> obj_id = 8, obj_content = Element (5 :: int) \<rparr>,
         \<lparr> obj_id = 7, obj_content = EmptyRankType \<rparr>]"
  let ?s' = "\<lparr> EmptyRank_global = \<lparr> obj_id = 7, obj_content = EmptyRankType \<rparr>, next_id = 9 \<rparr> :: int interp"
  have h1: "interp_ok ?s" by (simp add: interp_ok_def import_module_def)
  have h2: "allgather_objects ?s ?sent = (?received, ?s')"
    by (simp add: allgather_objects_def dumps_def loads_def import_module_def
        EmptyRankType_reduce_def get_empty_rank_def)
  note t = EmptyRank_survives_allgather[OF h1 h2]
  have c1: "loads ?s (dumps \<lparr> obj_id = 3, obj_content = EmptyRankType \<rparr>) = (EmptyRank_global ?s, ?s)"
    using t by simp
  have "as_boundary (prev_objects ?s ?received 3) = first_item (rev (take 3 (map as_boundary ?sent)))"
    using t by blast
  then have c2: "as_boundary (prev_objects ?s ?received 3) = Item 5"
    by (simp add: as_boundary_def)
  show ?thesis using h1 h2 c1 c2 by blast
qed

end
